theory Spec2Isabelle
  imports Main "HOL-Library.Multiset"
begin

section \<open>The match engine of server.js (class GameState)\<close>

text \<open>
  A shallow embedding of the authoritative game state kept by the server: the deck and its
  shuffle, the deal, the legality check \<open>canPlayCards\<close>, \<open>playCards\<close>,
  \<open>handlePlayerFinished\<close>, \<open>skipTurn\<close>, \<open>endRound\<close> and \<open>nextTurn\<close>, and the guard of
  the \<open>skipTurn\<close> socket handler. Every method mutates \<open>this\<close>; here it takes the state and
  returns the new one. A \<open>TypeError\<close> raised by reading a field of \<open>undefined\<close> is the
  result \<open>None\<close>.
\<close>

subsection \<open>Data\<close>

datatype Suit = Hearts | Diamonds | Clubs | Spades

text \<open>A card object \<open>{ suit, value }\<close>; the field \<open>value\<close> is \<open>cvalue\<close> here.\<close>

record Card =
  suit :: Suit
  cvalue :: int

text \<open>A player object of \<open>this.players\<close>; the field \<open>id\<close> (the socket id) is \<open>pid\<close> here.\<close>

record Player =
  pid :: string
  name :: string
  index :: nat
  hand :: "Card list"
  isWinner :: bool
  finishPosition :: "nat option"

datatype Phase = Waiting | Playing | RoundEnd | GameOver

text \<open>
  The fields of \<open>GameState\<close>. \<open>gameWinner\<close>, \<open>gameSecond\<close>, \<open>gameThird\<close> and \<open>gameLoser\<close>
  hold references to player objects of \<open>this.players\<close>; a reference is the position of the
  object in that array. \<open>playersWhoSkipped\<close> is a JavaScript \<open>Set\<close>: its members in insertion
  order, without repetition.
\<close>

record GameState =
  players :: "Player list"
  deck :: "Card list"
  currentPlayerIndex :: nat
  currentRound :: nat
  centerCards :: "Card list"
  lastPlayedCards :: "Card list"
  currentHighestCard :: "Card option"
  currentHighestCards :: "Card list"
  roundWinner :: "string option"
  roundLeader :: "nat option"
  playersWhoSkipped :: "nat list"
  consecutiveSkips :: nat
  finishedPlayers :: nat
  gamePhase :: Phase
  gameWinner :: "nat option"
  gameSecond :: "nat option"
  gameThird :: "nat option"
  gameLoser :: "nat option"

subsection \<open>Deck, shuffle and deal\<close>

definition suits :: "Suit list" where
  "suits = [Hearts, Diamonds, Clubs, Spades]"

definition card_values :: "int list" where
  "card_values = [3, 4, 5, 6, 7, 8, 9, 10, 11, 12, 13, 14, 15]"

text \<open>The deck that \<open>createDeck\<close> builds before it shuffles: suit by suit, each from 3 to 15.\<close>

definition unshuffled_deck :: "Card list" where
  "unshuffled_deck =
     concat (map (\<lambda>s. map (\<lambda>v. \<lparr>suit = s, cvalue = v\<rparr>) card_values) suits)"

text \<open>The destructuring swap \<open>[deck[i], deck[j]] = [deck[j], deck[i]]\<close>.\<close>

definition swap :: "nat \<Rightarrow> nat \<Rightarrow> 'a list \<Rightarrow> 'a list" where
  "swap i j xs = (xs[i := xs ! j])[j := xs ! i]"

text \<open>
  The loop of \<open>shuffle\<close>, counting \<open>i\<close> down to 1. The random source is the parameter
  \<open>rnd\<close>: \<open>rnd i\<close> is the value of \<open>Math.floor(Math.random() * (i + 1))\<close> in the iteration
  for \<open>i\<close>. \<open>Math.random()\<close> lies in [0, 1), so \<open>rnd i \<le> i\<close>.
\<close>

fun shuffle_loop :: "(nat \<Rightarrow> nat) \<Rightarrow> nat \<Rightarrow> 'a list \<Rightarrow> 'a list" where
  "shuffle_loop rnd 0 d = d"
| "shuffle_loop rnd (Suc i) d = shuffle_loop rnd i (swap (Suc i) (rnd (Suc i)) d)"

definition shuffle :: "(nat \<Rightarrow> nat) \<Rightarrow> 'a list \<Rightarrow> 'a list" where
  "shuffle rnd d = shuffle_loop rnd (length d - 1) d"

definition draws_ok :: "(nat \<Rightarrow> nat) \<Rightarrow> bool" where
  "draws_ok rnd \<longleftrightarrow> (\<forall>i. rnd i \<le> i)"

definition createDeck :: "(nat \<Rightarrow> nat) \<Rightarrow> Card list" where
  "createDeck rnd = shuffle rnd unshuffled_deck"

text \<open>\<open>dealCards\<close>: each player in turn takes \<open>deck.splice(0, 13)\<close>, which also shortens the deck.\<close>

fun dealCards_loop :: "Player list \<Rightarrow> Card list \<Rightarrow> Player list \<times> Card list" where
  "dealCards_loop [] d = ([], d)"
| "dealCards_loop (p # ps) d =
     (case dealCards_loop ps (drop 13 d) of
        (ps', d') \<Rightarrow> (p\<lparr>hand := take 13 d\<rparr> # ps', d'))"

definition dealCards :: "GameState \<Rightarrow> GameState" where
  "dealCards s =
     (case dealCards_loop (players s) (deck s) of
        (ps, d) \<Rightarrow> s\<lparr>players := ps, deck := d\<rparr>)"

text \<open>
  The constructor. \<open>ps\<close> lists the id and the name of each player of the room, \<open>rnd\<close> feeds
  the shuffle and \<open>start\<close> is the value of \<open>Math.floor(Math.random() * players.length)\<close>.
  \<open>initial_players\<close> is the \<open>players.map\<close> of its first statement.
\<close>

definition initial_players :: "(string \<times> string) list \<Rightarrow> Player list" where
  "initial_players ps =
     map (\<lambda>(i, p). \<lparr>pid = fst p, name = snd p, index = i, hand = [],
                      isWinner = False, finishPosition = None\<rparr>) (enumerate 0 ps)"

definition new_GameState :: "(string \<times> string) list \<Rightarrow> (nat \<Rightarrow> nat) \<Rightarrow> nat \<Rightarrow> GameState" where
  "new_GameState ps rnd start =
     (dealCards
        \<lparr>players = initial_players ps,
         deck = createDeck rnd,
         currentPlayerIndex = 0, currentRound = 0, centerCards = [], lastPlayedCards = [],
         currentHighestCard = None, currentHighestCards = [], roundWinner = None,
         roundLeader = None, playersWhoSkipped = [], consecutiveSkips = 0,
         finishedPlayers = 0, gamePhase = Playing, gameWinner = None, gameSecond = None,
         gameThird = None, gameLoser = None\<rparr>)
     \<lparr>currentPlayerIndex := start\<rparr>"

subsection \<open>Legality of a play\<close>

text \<open>
  \<open>canPlayCards\<close>, called with the player object. A \<open>cards\<close> argument that is \<open>null\<close> is
  treated by the source like the empty array.
\<close>

definition canPlayCards :: "GameState \<Rightarrow> Player \<Rightarrow> Card list \<Rightarrow> bool" where
  "canPlayCards s player cards =
     (if pid (players s ! currentPlayerIndex s) \<noteq> pid player then False
      else if cards = [] then False
      else if \<not> list_all (\<lambda>c. cvalue c = cvalue (hd cards)) cards then False
      else if currentHighestCards s = [] then True
      else if length cards \<noteq> length (currentHighestCards s) then False
      else cvalue (hd cards) > cvalue (hd (currentHighestCards s)))"

definition same_card :: "Card \<Rightarrow> Card \<Rightarrow> bool" where
  "same_card wanted c \<longleftrightarrow> suit c = suit wanted \<and> cvalue c = cvalue wanted"

fun findIndex :: "('a \<Rightarrow> bool) \<Rightarrow> 'a list \<Rightarrow> nat option" where
  "findIndex P [] = None"
| "findIndex P (x # xs) = (if P x then Some 0 else map_option Suc (findIndex P xs))"

text \<open>
  The removal loop of \<open>playCards\<close>, run on the hand with the cards still to remove and the
  cards removed so far. When a card is not found the removed cards are pushed back at the
  end of the hand and the loop gives up (second component \<open>None\<close>).
\<close>

fun removeCards :: "Card list \<Rightarrow> Card list \<Rightarrow> Card list \<Rightarrow> Card list \<times> Card list option" where
  "removeCards [] h playedCards = (h, Some playedCards)"
| "removeCards (wanted # cards) h playedCards =
     (case findIndex (same_card wanted) h of
        Some i \<Rightarrow> removeCards cards (take i h @ drop (Suc i) h) (playedCards @ [h ! i])
      | None \<Rightarrow> (h @ playedCards, None))"

subsection \<open>Turn order and rounds\<close>

text \<open>
  \<open>endRound\<close>. The lookup \<open>this.players[this.roundLeader]\<close> gives \<open>undefined\<close> when the round
  leader is \<open>null\<close> or outside the array; then the fallback branch only moves the current
  index on by one. (With an empty \<open>players\<close> array \<open>% 0\<close> would be \<open>NaN\<close>; a match always has
  four players.)
\<close>

definition endRound :: "GameState \<Rightarrow> GameState" where
  "endRound s =
     (case roundLeader s of
        Some l \<Rightarrow>
          if l < length (players s) then
            s\<lparr>roundWinner := Some (pid (players s ! l)), centerCards := [],
              lastPlayedCards := [], currentHighestCard := None, currentHighestCards := [],
              playersWhoSkipped := [], consecutiveSkips := 0, currentRound := 0,
              currentPlayerIndex := l\<rparr>
          else s\<lparr>currentPlayerIndex := (currentPlayerIndex s + 1) mod length (players s)\<rparr>
      | None \<Rightarrow> s\<lparr>currentPlayerIndex := (currentPlayerIndex s + 1) mod length (players s)\<rparr>)"

text \<open>
  The do-while loop of \<open>nextTurn\<close>: step to the next seat, stop after \<open>players.length\<close>
  steps or at a seat whose player has no finish position.
\<close>

function nextTurn_loop :: "Player list \<Rightarrow> nat \<Rightarrow> nat \<Rightarrow> nat" where
  "nextTurn_loop ps cur attempts =
     (if attempts + 1 \<ge> length ps then (cur + 1) mod length ps
      else if finishPosition (ps ! ((cur + 1) mod length ps)) \<noteq> None
        then nextTurn_loop ps ((cur + 1) mod length ps) (attempts + 1)
      else (cur + 1) mod length ps)"
  by pat_completeness auto
termination
  by (relation "measure (\<lambda>(ps, cur, attempts). length ps - attempts)") auto

declare nextTurn_loop.simps [simp del]

text \<open>
  \<open>nextTurn\<close>: the loop, the turn counter \<open>currentRound\<close> and the check "round is complete",
  which calls \<open>endRound\<close> once the counter has reached the number of players without a
  finish position (\<open>activeCount\<close>, the length of its \<open>activePlayers\<close>).
\<close>

definition activeCount :: "Player list \<Rightarrow> nat" where
  "activeCount ps = length (filter (\<lambda>p. finishPosition p = None) ps)"

definition nextTurn :: "GameState \<Rightarrow> GameState" where
  "nextTurn s =
     (let s1 = s\<lparr>currentPlayerIndex := nextTurn_loop (players s) (currentPlayerIndex s) 0,
                 currentRound := currentRound s + 1\<rparr>
      in if currentRound s1 \<ge> activeCount (players s1) then endRound s1 else s1)"

subsection \<open>Finishing\<close>

text \<open>
  \<open>handlePlayerFinished\<close>, called with the position \<open>i\<close> of the player object, in its two
  halves: \<open>markFinished\<close> counts the player, sets the finish position and runs the
  \<open>switch\<close>; \<open>finishLast\<close> is the final \<open>if\<close> on the players that have no finish position
  (\<open>activePlayers\<close>, by their positions in \<open>this.players\<close>).
\<close>

definition markFinished :: "nat \<Rightarrow> GameState \<Rightarrow> GameState" where
  "markFinished i s =
     (let n = finishedPlayers s + 1;
          ps1 = (players s)[i := (players s ! i)\<lparr>finishPosition := Some n\<rparr>];
          s1 = s\<lparr>finishedPlayers := n, players := ps1\<rparr>
      in if n = 1 then s1\<lparr>gameWinner := Some i,
                            players := ps1[i := (ps1 ! i)\<lparr>isWinner := True\<rparr>]\<rparr>
         else if n = 2 then s1\<lparr>gameSecond := Some i\<rparr>
         else if n = 3 then s1\<lparr>gameThird := Some i\<rparr>
         else if n = 4 then s1\<lparr>gameLoser := Some i, gamePhase := GameOver\<rparr>
         else s1)"

definition activePlayers :: "GameState \<Rightarrow> nat list" where
  "activePlayers s =
     filter (\<lambda>k. finishPosition (players s ! k) = None) [0..<length (players s)]"

definition finishLast :: "GameState \<Rightarrow> GameState" where
  "finishLast s =
     (case activePlayers s of
        [a] \<Rightarrow> s\<lparr>players := (players s)[a := (players s ! a)
                                  \<lparr>finishPosition := Some (length (players s))\<rparr>],
                 gameLoser := (case gameLoser s of Some g \<Rightarrow> Some g | None \<Rightarrow> Some a),
                 gamePhase := GameOver\<rparr>
      | _ \<Rightarrow> s)"

definition handlePlayerFinished :: "nat \<Rightarrow> GameState \<Rightarrow> GameState" where
  "handlePlayerFinished i s = finishLast (markFinished i s)"

subsection \<open>Playing and skipping\<close>

text \<open>
  The second half of \<open>playCards\<close>, from the comment "Update game state" on: \<open>h\<close> is the
  hand left after the removal loop and \<open>playedCards\<close> the cards it removed.
\<close>

definition applyPlay :: "nat \<Rightarrow> Card list \<Rightarrow> Card list \<Rightarrow> GameState \<Rightarrow> GameState" where
  "applyPlay playerIndex h playedCards s =
     (let player = players s ! playerIndex;
          s1 = s\<lparr>players := (players s)[playerIndex := player\<lparr>hand := h\<rparr>],
                 currentHighestCards := playedCards,
                 currentHighestCard := (case playedCards of [] \<Rightarrow> None | c # _ \<Rightarrow> Some c),
                 centerCards := playedCards,
                 lastPlayedCards := playedCards,
                 roundLeader := Some playerIndex,
                 roundWinner := Some (pid player),
                 playersWhoSkipped := [],
                 consecutiveSkips := 0\<rparr>;
          s2 = (if h = [] then handlePlayerFinished playerIndex s1 else s1)
      in nextTurn s2)"

text \<open>
  \<open>playCards\<close> returns the boolean of the source together with the state it leaves.
  \<open>None\<close> is the \<open>TypeError\<close> of \<open>canPlayCards\<close> when a player object is \<open>undefined\<close>.
\<close>

definition playCards :: "nat \<Rightarrow> Card list \<Rightarrow> GameState \<Rightarrow> (bool \<times> GameState) option" where
  "playCards playerIndex cards s =
     (if playerIndex \<ge> length (players s) \<or> currentPlayerIndex s \<ge> length (players s)
      then None
      else
        let player = players s ! playerIndex in
        if \<not> canPlayCards s player cards then Some (False, s)
        else if \<not> list_all (\<lambda>c. find (same_card c) (hand player) \<noteq> None) cards
          then Some (False, s)
        else
          (case removeCards cards (hand player) [] of
             (h, None) \<Rightarrow>
               Some (False, s\<lparr>players := (players s)[playerIndex := player\<lparr>hand := h\<rparr>]\<rparr>)
           | (h, Some playedCards) \<Rightarrow>
               Some (True, applyPlay playerIndex h playedCards s)))"

text \<open>Whether \<open>playCards\<close> returns true, and whether it returns false.\<close>

definition accepts :: "nat \<Rightarrow> Card list \<Rightarrow> GameState \<Rightarrow> bool" where
  "accepts i cards s = (case playCards i cards s of Some (b, _) \<Rightarrow> b | None \<Rightarrow> False)"

definition rejects :: "nat \<Rightarrow> Card list \<Rightarrow> GameState \<Rightarrow> bool" where
  "rejects i cards s = (case playCards i cards s of Some (b, _) \<Rightarrow> \<not> b | None \<Rightarrow> False)"

text \<open>\<open>Set.prototype.add\<close>.\<close>

definition set_add :: "nat \<Rightarrow> nat list \<Rightarrow> nat list" where
  "set_add x xs = (if x \<in> set xs then xs else xs @ [x])"

text \<open>
  \<open>skipTurn\<close>. \<open>None\<close> is the \<open>TypeError\<close> of reading \<open>currentPlayer.name\<close> when the current
  index is outside the array.
\<close>

definition skipTurn :: "GameState \<Rightarrow> GameState option" where
  "skipTurn s0 =
     (if currentPlayerIndex s0 \<ge> length (players s0) then None
      else
        let s = nextTurn (s0\<lparr>playersWhoSkipped :=
                               set_add (currentPlayerIndex s0) (playersWhoSkipped s0)\<rparr>)
        in case roundLeader s of
             None \<Rightarrow> Some (endRound s)
           | Some l \<Rightarrow>
               if currentPlayerIndex s = l then Some (endRound s)
               else
                 let activePlayers =
                       filter (\<lambda>(idx, p). finishPosition p = None \<and> idx \<noteq> l)
                         (enumerate 0 (players s));
                     allOthersSkipped =
                       list_all (\<lambda>(idx, p).
                           case findIndex (\<lambda>pl. pid pl = pid p) (players s) of
                             Some k \<Rightarrow> k \<in> set (playersWhoSkipped s)
                           | None \<Rightarrow> False) activePlayers
                 in if allOthersSkipped then Some (endRound s) else Some s)"

text \<open>
  The guard of the \<open>skipTurn\<close> socket handler and the call it protects, as a function of
  the index \<open>playerIndex\<close> that the handler's lookup has found: nothing happens unless that
  index is the current one. The boolean tells whether \<open>skipTurn\<close> was called. The handler
  itself, with its lookup of the sender, is \<open>on_skipTurn\<close> below.
\<close>

definition guardedSkipTurn :: "nat \<Rightarrow> GameState \<Rightarrow> (bool \<times> GameState) option" where
  "guardedSkipTurn playerIndex s =
     (if playerIndex \<noteq> currentPlayerIndex s then Some (False, s)
      else map_option (\<lambda>s'. (True, s')) (skipTurn s))"

subsection \<open>Messages and reachable states\<close>

text \<open>
  The two game messages as they reach the engine, with the index that the handler's lookup
  has found. Every index is allowed here, so that each state of the game that the socket
  handlers of the next subsection can produce is among the reachable ones.
\<close>

datatype Message = PlayCards nat "Card list" | SkipTurn nat

fun deliver :: "Message \<Rightarrow> GameState \<Rightarrow> (bool \<times> GameState) option" where
  "deliver (PlayCards i cards) s = playCards i cards s"
| "deliver (SkipTurn i) s = guardedSkipTurn i s"

fun run :: "Message list \<Rightarrow> GameState \<Rightarrow> GameState option" where
  "run [] s = Some s"
| "run (m # ms) s = (case deliver m s of None \<Rightarrow> None | Some (b, s') \<Rightarrow> run ms s')"

text \<open>
  The server builds a game when a room holds exactly \<open>MAX_PLAYERS = 4\<close> players, whose
  socket ids differ, and then handles the messages of the clients one at a time.
\<close>

inductive reachable :: "GameState \<Rightarrow> bool" where
  start: "length ps = 4 \<Longrightarrow> distinct (map fst ps) \<Longrightarrow> draws_ok rnd \<Longrightarrow> start < 4 \<Longrightarrow>
            reachable (new_GameState ps rnd start)"
| step: "reachable s \<Longrightarrow> deliver m s = Some (b, s') \<Longrightarrow> reachable s'"

subsection \<open>The room and the socket handlers\<close>

text \<open>
  A room of the server: \<open>room.players\<close> and \<open>room.gameState\<close> (\<open>null\<close> until the game starts).
  An entry of \<open>room.players\<close> is \<open>{id, name, index}\<close>; the handlers below read its \<open>id\<close> only
  (\<open>index\<close> is sent back to the clients as \<open>yourIndex\<close>), so an entry is the pair of the
  socket id and the name, which is also what the constructor of \<open>GameState\<close> reads.
\<close>

record Room =
  roomPlayers :: "(string \<times> string) list"
  gameState :: "GameState option"

text \<open>
  The \<open>playCards\<close> handler for a message of the socket \<open>socketId\<close>: it looks the sender up
  with \<open>room.players.findIndex(p => p.id === socket.id)\<close>, returns if there is no game or the
  lookup gives \<open>-1\<close>, and calls \<open>gameState.playCards\<close> with the index found. The boolean is
  the result of \<open>playCards\<close>.
\<close>

definition on_playCards :: "string \<Rightarrow> Card list \<Rightarrow> Room \<Rightarrow> (bool \<times> Room) option" where
  "on_playCards socketId cards room =
     (case gameState room of
        None \<Rightarrow> Some (False, room)
      | Some g \<Rightarrow>
          (case findIndex (\<lambda>p. fst p = socketId) (roomPlayers room) of
             None \<Rightarrow> Some (False, room)
           | Some playerIndex \<Rightarrow>
               map_option (\<lambda>(b, g'). (b, room\<lparr>gameState := Some g'\<rparr>))
                 (playCards playerIndex cards g)))"

text \<open>
  The \<open>skipTurn\<close> handler: the same lookup, then
  \<open>if (playerIndex === -1 || playerIndex !== room.gameState.currentPlayerIndex) return\<close>,
  then \<open>gameState.skipTurn()\<close>. The boolean tells whether \<open>skipTurn\<close> was called.
\<close>

definition on_skipTurn :: "string \<Rightarrow> Room \<Rightarrow> (bool \<times> Room) option" where
  "on_skipTurn socketId room =
     (case gameState room of
        None \<Rightarrow> Some (False, room)
      | Some g \<Rightarrow>
          (case findIndex (\<lambda>p. fst p = socketId) (roomPlayers room) of
             None \<Rightarrow> Some (False, room)
           | Some playerIndex \<Rightarrow>
               if playerIndex \<noteq> currentPlayerIndex g then Some (False, room)
               else map_option (\<lambda>g'. (True, room\<lparr>gameState := Some g'\<rparr>)) (skipTurn g)))"

text \<open>
  The \<open>disconnecting\<close> handler, for the room the socket is in:
  \<open>rooms[r].players = rooms[r].players.filter(p => p.id !== socket.id)\<close>. The game state is
  not touched: \<open>gameState.players\<close> keeps its four seats.
\<close>

definition on_disconnecting :: "string \<Rightarrow> Room \<Rightarrow> Room" where
  "on_disconnecting socketId room =
     room\<lparr>roomPlayers := filter (\<lambda>p. fst p \<noteq> socketId) (roomPlayers room)\<rparr>"

text \<open>What a socket can send to a room with a game, and the handler of each event.\<close>

datatype Event = Play string "Card list" | Skip string | Disconnect string

fun handle :: "Event \<Rightarrow> Room \<Rightarrow> Room option" where
  "handle (Play socketId cards) room = map_option snd (on_playCards socketId cards room)"
| "handle (Skip socketId) room = map_option snd (on_skipTurn socketId room)"
| "handle (Disconnect socketId) room = Some (on_disconnecting socketId room)"

fun room_run :: "Event list \<Rightarrow> Room \<Rightarrow> Room option" where
  "room_run [] room = Some room"
| "room_run (e # es) room = (case handle e room of None \<Rightarrow> None | Some room' \<Rightarrow> room_run es room')"

text \<open>
  \<open>joinRoom\<close> creates the game with \<open>new GameState(room.players)\<close> when the fourth player has
  joined, and sets \<open>room.status = 'in-progress'\<close>, after which it lets nobody else in: from
  then on \<open>room.players\<close> changes by \<open>disconnecting\<close> only.
\<close>

inductive room_reachable :: "Room \<Rightarrow> bool" where
  created: "length ps = 4 \<Longrightarrow> distinct (map fst ps) \<Longrightarrow> draws_ok rnd \<Longrightarrow> start < 4 \<Longrightarrow>
            room_reachable \<lparr>roomPlayers = ps, gameState = Some (new_GameState ps rnd start)\<rparr>"
| handled: "room_reachable room \<Longrightarrow> handle e room = Some room' \<Longrightarrow> room_reachable room'"

text \<open>The seat of a socket in the game: its position in \<open>gameState.players\<close>.\<close>

definition seatOf :: "string \<Rightarrow> GameState \<Rightarrow> nat option" where
  "seatOf socketId g = findIndex (\<lambda>p. pid p = socketId) (players g)"

subsection \<open>Invariants\<close>

text \<open>
  What every state of a match keeps: four players with different ids, a current index
  and a round leader inside the array.
\<close>

definition wf :: "GameState \<Rightarrow> bool" where
  "wf s \<longleftrightarrow> length (players s) = 4 \<and> distinct (map pid (players s)) \<and>
     currentPlayerIndex s < 4 \<and> (case roundLeader s of None \<Rightarrow> True | Some l \<Rightarrow> l < 4)"

text \<open>
  Every seat other than \<open>l\<close> whose player has no finish position is in the list \<open>skipped\<close>.
\<close>

definition others_skipped :: "nat \<Rightarrow> Player list \<Rightarrow> nat list \<Rightarrow> bool" where
  "others_skipped l ps skipped \<longleftrightarrow>
     list_all (\<lambda>j. j = l \<or> finishPosition (ps ! j) \<noteq> None \<or> j \<in> set skipped)
       [0..<length ps]"

text \<open>
  The seats whose hand is empty and the seats without a finish position, and the number
  of players whose hand is empty.
\<close>

definition emptySeats :: "GameState \<Rightarrow> nat set" where
  "emptySeats s = {j. j < length (players s) \<and> hand (players s ! j) = []}"

definition activeSeats :: "GameState \<Rightarrow> nat set" where
  "activeSeats s = {j. j < length (players s) \<and> finishPosition (players s ! j) = None}"




text \<open>
  The state of \<open>playCards\<close> after its block "Update game state", before the check for an
  empty hand.
\<close>

definition placeCards :: "nat \<Rightarrow> Card list \<Rightarrow> Card list \<Rightarrow> GameState \<Rightarrow> GameState" where
  "placeCards i h cs s =
     s\<lparr>players := (players s)[i := (players s ! i)\<lparr>hand := h\<rparr>],
       currentHighestCards := cs,
       currentHighestCard := (case cs of [] \<Rightarrow> None | c # _ \<Rightarrow> Some c),
       centerCards := cs, lastPlayedCards := cs, roundLeader := Some i,
       roundWinner := Some (pid (players s ! i)), playersWhoSkipped := [],
       consecutiveSkips := 0\<rparr>"

subsection \<open>A concrete match\<close>

text \<open>
  Four players and a run of the random source that leaves the deck sorted by rank, so
  that the first seat holds the four 3s, 4s and 5s and one 6.
\<close>

definition demo_draws :: "nat list" where
  "demo_draws = [0, 1, 2, 3, 1, 5, 6, 7, 2, 9, 7, 11, 3, 4, 5, 9, 4, 17, 18, 19, 5, 18, 22,
     11, 6, 19, 8, 24, 7, 20, 21, 22, 8, 21, 34, 35, 9, 22, 35, 12, 10, 23, 36, 25, 11, 24,
     37, 38, 12, 25, 38, 51]"

definition demo_rnd :: "nat \<Rightarrow> nat" where
  "demo_rnd i = (if i < length demo_draws then demo_draws ! i else 0)"

definition demo_players :: "(string \<times> string) list" where
  "demo_players = [(''a'', ''Ana''), (''b'', ''Bia''), (''c'', ''Caio''), (''d'', ''Davi'')]"

definition game0 :: GameState where
  "game0 = new_GameState demo_players demo_rnd 0"

definition C :: "Suit \<Rightarrow> int \<Rightarrow> Card" where
  "C s v = \<lparr>suit = s, cvalue = v\<rparr>"

definition four :: "int \<Rightarrow> Card list" where
  "four v = [C Hearts v, C Diamonds v, C Clubs v, C Spades v]"

text \<open>The state after the messages \<open>ms\<close> from the first state of the concrete match.\<close>

definition after :: "Message list \<Rightarrow> GameState" where
  "after ms = the (run ms game0)"

text \<open>
  Three rounds of the concrete match: the first seat leads four of a kind and the other
  three seats skip. Then the first seat is left with one card, which \<open>last_card\<close> plays.
\<close>

definition round_of :: "int \<Rightarrow> Message list" where
  "round_of v = [PlayCards 0 (four v), SkipTurn 1, SkipTurn 2, SkipTurn 3]"

definition three_rounds :: "Message list" where
  "three_rounds = round_of 3 @ round_of 4 @ round_of 5"

definition last_card :: "Message list" where
  "last_card = three_rounds @ [PlayCards 0 [C Hearts 6]]"

definition two_skips :: "Message list" where
  "two_skips = last_card @ [SkipTurn 1, SkipTurn 2]"

text \<open>Four plays in a row, one by each seat, each above the one before.\<close>

definition three_plays :: "Message list" where
  "three_plays = [PlayCards 0 [C Hearts 3], PlayCards 1 [C Diamonds 6], PlayCards 2 [C Clubs 9]]"

definition four_plays :: "Message list" where
  "four_plays = three_plays @ [PlayCards 3 [C Spades 12]]"

text \<open>The leader plays, the second and third seat skip; the fourth is to move.\<close>

definition before_last_skip :: "Message list" where
  "before_last_skip = [PlayCards 0 (four 3), SkipTurn 1, SkipTurn 2]"




text \<open>
  The room of the concrete match, and the room after the events \<open>es\<close>. In \<open>left_a\<close> the
  first seat has led its four 3s and then disconnected; the second seat is to move.
\<close>

definition room0 :: Room where
  "room0 = \<lparr>roomPlayers = demo_players, gameState = Some game0\<rparr>"

definition room_after :: "Event list \<Rightarrow> Room" where
  "room_after es = the (room_run es room0)"

definition game_after :: "Event list \<Rightarrow> GameState" where
  "game_after es = the (gameState (room_after es))"

definition left_a :: "Event list" where
  "left_a = [Play ''a'' (four 3), Disconnect ''a'']"

section \<open>Properties\<close>

subsection \<open>The deck and the deal\<close>

lemma length_swap [simp]: "length (swap i j xs) = length xs"
  by (simp add: swap_def)

lemma mset_swap_deck: "i < length xs \<Longrightarrow> j < length xs \<Longrightarrow> mset (swap i j xs) = mset xs"
  unfolding swap_def by (simp add: mset_swap)

lemma length_shuffle_loop [simp]: "length (shuffle_loop rnd i xs) = length xs"
  by (induction i arbitrary: xs) simp_all

lemma mset_shuffle_loop:
  "draws_ok rnd \<Longrightarrow> i < length xs \<Longrightarrow> mset (shuffle_loop rnd i xs) = mset xs"
proof (induction i arbitrary: xs)
  case 0
  then show ?case by simp
next
  case (Suc i)
  from Suc.prems have "rnd (Suc i) \<le> Suc i"
    unfolding draws_ok_def by blast
  with Suc.prems have j: "rnd (Suc i) < length xs" by simp
  with Suc show ?case by (simp add: mset_swap_deck)
qed

lemma mset_shuffle: "draws_ok rnd \<Longrightarrow> mset (shuffle rnd xs) = mset xs"
  by (cases xs) (simp_all add: shuffle_def mset_shuffle_loop)

lemma length_shuffle [simp]: "length (shuffle rnd xs) = length xs"
  by (simp add: shuffle_def)

lemma dealCards_loop_props:
  "dealCards_loop ps d = (ps', d') \<Longrightarrow>
     d' = drop (13 * length ps) d \<and> length ps' = length ps \<and>
     concat (map hand ps') = take (13 * length ps) d \<and>
     (\<forall>k<length ps. hand (ps' ! k) = take 13 (drop (13 * k) d)) \<and>
     map pid ps' = map pid ps \<and> map finishPosition ps' = map finishPosition ps"
proof (induction ps arbitrary: d ps' d')
  case Nil
  then show ?case by simp
next
  case (Cons p ps)
  obtain qs e where rec: "dealCards_loop ps (drop 13 d) = (qs, e)"
    by (cases "dealCards_loop ps (drop 13 d)")
  with Cons.prems have ps': "ps' = p\<lparr>hand := take 13 d\<rparr> # qs" and d': "d' = e"
    by simp_all
  note ih = Cons.IH [OF rec]
  have cc: "take 13 d @ take (13 * length ps) (drop 13 d) = take (13 + 13 * length ps) d"
    by (simp add: take_add)
  have hk: "\<forall>k<Suc (length ps). hand (ps' ! k) = take 13 (drop (13 * k) d)"
  proof (intro allI impI)
    fix k assume "k < Suc (length ps)"
    then show "hand (ps' ! k) = take 13 (drop (13 * k) d)"
      using ih by (cases k) (simp_all add: ps' add.commute)
  qed
  from ih have "d' = drop (13 * length (p # ps)) d"
    by (simp add: d' add.commute)
  moreover from ih have "length ps' = length (p # ps)" by (simp add: ps')
  moreover from ih cc have "concat (map hand ps') = take (13 * length (p # ps)) d"
    by (simp add: ps')
  moreover from ih have "map pid ps' = map pid (p # ps)" by (simp add: ps')
  moreover from ih have "map finishPosition ps' = map finishPosition (p # ps)" by (simp add: ps')
  ultimately show ?case using hk by simp
qed

lemma length_unshuffled_deck: "length unshuffled_deck = 52"
  by (simp add: unshuffled_deck_def suits_def card_values_def)

lemma distinct_unshuffled_deck: "distinct unshuffled_deck"
  by (simp add: unshuffled_deck_def suits_def card_values_def)

lemma set_suits: "s \<in> set suits"
  by (cases s) (simp_all add: suits_def)

lemma set_card_values: "v \<in> set card_values \<longleftrightarrow> 3 \<le> v \<and> v \<le> 15"
  unfolding card_values_def by (simp del: One_nat_def) presburger

lemma in_unshuffled_deck: "c \<in> set unshuffled_deck \<longleftrightarrow> 3 \<le> cvalue c \<and> cvalue c \<le> 15"
proof -
  have "c \<in> set unshuffled_deck \<longleftrightarrow>
        (\<exists>s\<in>set suits. \<exists>v\<in>set card_values. c = \<lparr>suit = s, cvalue = v\<rparr>)"
    unfolding unshuffled_deck_def by auto
  also have "\<dots> \<longleftrightarrow> cvalue c \<in> set card_values"
  proof
    assume "\<exists>s\<in>set suits. \<exists>v\<in>set card_values. c = \<lparr>suit = s, cvalue = v\<rparr>"
    then show "cvalue c \<in> set card_values" by auto
  next
    assume v: "cvalue c \<in> set card_values"
    have "c = \<lparr>suit = suit c, cvalue = cvalue c\<rparr>" by simp
    with v set_suits [of "suit c"]
    show "\<exists>s\<in>set suits. \<exists>v\<in>set card_values. c = \<lparr>suit = s, cvalue = v\<rparr>" by blast
  qed
  finally show ?thesis by (simp only: set_card_values)
qed

lemma createDeck_props:
  assumes "draws_ok rnd"
  shows "length (createDeck rnd) = 52" "mset (createDeck rnd) = mset unshuffled_deck"
    "distinct (createDeck rnd)"
proof -
  show "length (createDeck rnd) = 52"
    by (simp add: createDeck_def length_unshuffled_deck)
  show m: "mset (createDeck rnd) = mset unshuffled_deck"
    using assms by (simp add: createDeck_def mset_shuffle)
  show "distinct (createDeck rnd)"
    using m distinct_unshuffled_deck by (metis mset_eq_imp_distinct_iff)
qed

lemma new_GameState_players:
  "dealCards_loop (initial_players ps) (createDeck rnd) = (qs, e) \<Longrightarrow>
     players (new_GameState ps rnd start) = qs \<and> deck (new_GameState ps rnd start) = e"
  by (simp add: new_GameState_def dealCards_def)

text \<open>
  Claim C8. In every new match of four players, after the deal each player holds exactly
  13 cards, the four hands together are exactly the 52 cards of one deck (every suit with
  every value from 3 to 15, each once, nothing else), and the deck is empty.
\<close>

theorem deck_integrity:
  assumes "length ps = 4" and "draws_ok rnd"
  shows "length (players (new_GameState ps rnd start)) = 4 \<and>
         (\<forall>p\<in>set (players (new_GameState ps rnd start)). length (hand p) = 13) \<and>
         distinct (concat (map hand (players (new_GameState ps rnd start)))) \<and>
         set (concat (map hand (players (new_GameState ps rnd start))))
           = {c. 3 \<le> cvalue c \<and> cvalue c \<le> 15} \<and>
         mset (concat (map hand (players (new_GameState ps rnd start)))) = mset unshuffled_deck \<and>
         length unshuffled_deck = 52 \<and>
         deck (new_GameState ps rnd start) = []"
proof -
  let ?s = "new_GameState ps rnd start"
  let ?d = "createDeck rnd"
  obtain qs e where loop: "dealCards_loop (initial_players ps) ?d = (qs, e)"
    by (cases "dealCards_loop (initial_players ps) ?d")
  have n: "length (initial_players ps) = 4"
    using assms(1) by (simp add: initial_players_def)
  note props = dealCards_loop_props [OF loop]
  note st = new_GameState_players [OF loop, of start]
  note d = createDeck_props [OF assms(2)]
  have len: "length (players ?s) = 4" using props n st by simp
  have cc: "concat (map hand (players ?s)) = ?d"
    using props n st d(1) by simp
  have hands: "\<forall>p\<in>set (players ?s). length (hand p) = 13"
  proof
    fix p assume "p \<in> set (players ?s)"
    then obtain k where k: "k < 4" and p: "p = qs ! k"
      using st len by (metis in_set_conv_nth)
    with props n have "hand p = take 13 (drop (13 * k) ?d)" by simp
    with k d(1) show "length (hand p) = 13" by simp
  qed
  have dk: "deck ?s = []" using props n st d(1) by simp
  have "set ?d = set unshuffled_deck" using d(2) by (rule mset_eq_setD)
  then have st': "set ?d = {c. 3 \<le> cvalue c \<and> cvalue c \<le> 15}"
    using in_unshuffled_deck by auto
  show ?thesis
    using len hands dk st' d(2,3) length_unshuffled_deck by (simp only: cc simp_thms)
qed


lemma demo_draws_below: "list_all (\<lambda>(i, j). j \<le> i) (enumerate 0 demo_draws)"
  by (simp add: demo_draws_def)

lemma draws_ok_demo_rnd: "draws_ok demo_rnd"
  unfolding draws_ok_def
proof
  fix i
  show "demo_rnd i \<le> i"
  proof (cases "i < length demo_draws")
    case True
    then have "(i, demo_draws ! i) \<in> set (enumerate 0 demo_draws)"
      by (simp add: in_set_enumerate_eq)
    with demo_draws_below have "demo_draws ! i \<le> i"
      unfolding list_all_iff by blast
    with True show ?thesis by (simp add: demo_rnd_def)
  next
    case False
    then show ?thesis by (simp add: demo_rnd_def)
  qed
qed

theorem deck_integrity_witness:
  "length demo_players = 4 \<and> draws_ok demo_rnd \<and>
   length (players game0) = 4 \<and>
   list_all (\<lambda>p. length (hand p) = 13) (players game0) \<and>
   distinct (concat (map hand (players game0))) \<and>
   set (concat (map hand (players game0))) = {c. 3 \<le> cvalue c \<and> cvalue c \<le> 15} \<and>
   mset (concat (map hand (players game0))) = mset unshuffled_deck \<and>
   length unshuffled_deck = 52 \<and>
   deck game0 = []"
proof -
  have n: "length demo_players = 4" by (simp add: demo_players_def)
  show ?thesis
    using deck_integrity [OF n draws_ok_demo_rnd, of 0] n draws_ok_demo_rnd
    unfolding game0_def list_all_iff by blast
qed

subsection \<open>Accepted and rejected plays\<close>

lemma same_card_eq: "same_card wanted c \<longleftrightarrow> c = wanted"
  by (auto simp: same_card_def)

lemma findIndex_None: "findIndex P xs = None \<longleftrightarrow> (\<forall>x\<in>set xs. \<not> P x)"
  by (induction xs) auto

lemma findIndex_Some:
  "findIndex P xs = Some i \<Longrightarrow> i < length xs \<and> P (xs ! i) \<and> (\<forall>j<i. \<not> P (xs ! j))"
proof (induction xs arbitrary: i)
  case Nil
  then show ?case by simp
next
  case (Cons x xs)
  show ?case
  proof (cases "P x")
    case True
    with Cons.prems show ?thesis by simp
  next
    case False
    with Cons.prems obtain k where k: "findIndex P xs = Some k" and i: "i = Suc k"
      by auto
    from Cons.IH [OF k] False show ?thesis
      by (auto simp: i less_Suc_eq_0_disj)
  qed
qed

lemma findIndex_card:
  "findIndex (same_card c) h = Some i \<Longrightarrow> take i h @ drop (Suc i) h = remove1 c h \<and> h ! i = c"
proof (induction h arbitrary: i)
  case Nil
  then show ?case by simp
next
  case (Cons x h)
  show ?case
  proof (cases "x = c")
    case True
    with Cons.prems show ?thesis by (simp add: same_card_eq)
  next
    case False
    then have "\<not> same_card c x" by (simp add: same_card_eq)
    with Cons.prems obtain k where k: "findIndex (same_card c) h = Some k" and i: "i = Suc k"
      by auto
    from Cons.IH [OF k] False show ?thesis by (simp add: i)
  qed
qed

lemma removeCards_Cons:
  "removeCards (c # cs) h pl =
     (if c \<in> set h then removeCards cs (remove1 c h) (pl @ [c]) else (h @ pl, None))"
proof (cases "findIndex (same_card c) h")
  case None
  then have "c \<notin> set h" by (auto simp: findIndex_None same_card_eq)
  with None show ?thesis by simp
next
  case (Some i)
  from findIndex_Some [OF Some] have "c \<in> set h" by (metis nth_mem same_card_eq)
  with Some findIndex_card [OF Some] show ?thesis by simp
qed

declare removeCards.simps(2) [simp del]

lemma removeCards_Some:
  "removeCards cs h pl = (h', Some pc) \<Longrightarrow> pc = pl @ cs \<and> mset h' + mset cs = mset h"
proof (induction cs arbitrary: h pl)
  case Nil
  then show ?case by simp
next
  case (Cons c cs)
  from Cons.prems have c: "c \<in> set h"
    by (auto simp: removeCards_Cons split: if_splits)
  with Cons.prems have "removeCards cs (remove1 c h) (pl @ [c]) = (h', Some pc)"
    by (simp add: removeCards_Cons)
  from Cons.IH [OF this] c show ?case by simp
qed

lemma removeCards_None:
  "removeCards cs h pl = (h', None) \<Longrightarrow> mset h' = mset h + mset pl"
proof (induction cs arbitrary: h pl)
  case Nil
  then show ?case by simp
next
  case (Cons c cs)
  show ?case
  proof (cases "c \<in> set h")
    case True
    with Cons.prems have "removeCards cs (remove1 c h) (pl @ [c]) = (h', None)"
      by (simp add: removeCards_Cons)
    from Cons.IH [OF this] True show ?thesis by simp
  next
    case False
    with Cons.prems show ?thesis by (auto simp: removeCards_Cons)
  qed
qed

lemma removeCards_succeeds_iff:
  "(\<exists>h'. removeCards cs h pl = (h', Some (pl @ cs))) \<longleftrightarrow> mset cs \<subseteq># mset h"
proof (induction cs arbitrary: h pl)
  case Nil
  then show ?case by simp
next
  case (Cons c cs)
  show ?case
  proof (cases "c \<in> set h")
    case True
    have "mset (c # cs) \<subseteq># mset h \<longleftrightarrow> mset cs \<subseteq># mset (remove1 c h)"
      using True by (simp add: insert_subset_eq_iff)
    with Cons.IH [of "remove1 c h" "pl @ [c]"] True show ?thesis
      by (simp add: removeCards_Cons)
  next
    case False
    then have "\<not> mset (c # cs) \<subseteq># mset h"
      by (metis in_multiset_in_set list.set_intros(1) mset_subset_eqD set_mset_mset)
    with False show ?thesis by (simp add: removeCards_Cons)
  qed
qed

lemma removeCards_cases:
  obtains (ok) h' where "mset cs \<subseteq># mset h" "removeCards cs h [] = (h', Some cs)"
      "mset h' + mset cs = mset h"
  | (undo) h' where "\<not> mset cs \<subseteq># mset h" "removeCards cs h [] = (h', None)"
      "mset h' = mset h"
proof (cases "mset cs \<subseteq># mset h")
  case True
  then obtain h' where r: "removeCards cs h [] = (h', Some cs)"
    using removeCards_succeeds_iff [of cs h "[]"] by auto
  from removeCards_Some [OF r] True r show ?thesis by (auto intro: ok)
next
  case False
  obtain h' r where r: "removeCards cs h [] = (h', r)" by (cases "removeCards cs h []")
  show ?thesis
  proof (cases r)
    case None
    with r removeCards_None [of cs h "[]" h'] False show ?thesis by (auto intro: undo)
  next
    case (Some pc)
    with r removeCards_Some [of cs h "[]" h' pc] have "removeCards cs h [] = (h', Some ([] @ cs))"
      by simp
    with False removeCards_succeeds_iff [of cs h "[]"] show ?thesis by blast
  qed
qed

lemma distinct_subset_mset:
  "distinct cs \<Longrightarrow> set cs \<subseteq> set h \<Longrightarrow> mset cs \<subseteq># mset h"
proof (induction cs arbitrary: h)
  case Nil
  then show ?case by simp
next
  case (Cons c cs)
  have "set cs \<subseteq> set (remove1 c h)"
  proof
    fix x assume x: "x \<in> set cs"
    with Cons.prems have "x \<noteq> c" and "x \<in> set h" by auto
    then show "x \<in> set (remove1 c h)" by (simp add: in_set_remove1)
  qed
  moreover from Cons.prems have "distinct cs" by simp
  ultimately have "mset cs \<subseteq># mset (remove1 c h)" by (intro Cons.IH)
  with Cons.prems show ?case by (simp add: insert_subset_eq_iff)
qed

lemma playCards_in_hand:
  "list_all (\<lambda>c. find (same_card c) h \<noteq> None) cards \<longleftrightarrow> set cards \<subseteq> set h"
  by (auto simp: list_all_iff find_None_iff same_card_eq)

lemma playCards_unfold:
  assumes "i < length (players s)" and "currentPlayerIndex s < length (players s)"
  shows "playCards i cards s =
     (if \<not> canPlayCards s (players s ! i) cards then Some (False, s)
      else if \<not> set cards \<subseteq> set (hand (players s ! i)) then Some (False, s)
      else (case removeCards cards (hand (players s ! i)) [] of
             (h, None) \<Rightarrow>
               Some (False, s\<lparr>players := (players s)[i := (players s ! i)\<lparr>hand := h\<rparr>]\<rparr>)
           | (h, Some playedCards) \<Rightarrow> Some (True, applyPlay i h playedCards s)))"
  unfolding playCards_def Let_def playCards_in_hand using assms by simp

lemma playCards_None:
  "playCards i cards s = None \<longleftrightarrow>
     \<not> (i < length (players s) \<and> currentPlayerIndex s < length (players s))"
proof (cases "i < length (players s) \<and> currentPlayerIndex s < length (players s)")
  case True
  then show ?thesis
    by (auto simp: playCards_unfold split: prod.splits option.splits)
next
  case False
  then have "length (players s) \<le> i \<or> length (players s) \<le> currentPlayerIndex s" by auto
  then have "playCards i cards s = None" by (simp add: playCards_def)
  with False show ?thesis by simp
qed

lemma playCards_cases:
  assumes "i < length (players s)" and "currentPlayerIndex s < length (players s)"
  obtains (illegal) "\<not> canPlayCards s (players s ! i) cards" "playCards i cards s = Some (False, s)"
  | (missing) "canPlayCards s (players s ! i) cards" "\<not> set cards \<subseteq> set (hand (players s ! i))"
      "playCards i cards s = Some (False, s)"
  | (undone) h where "canPlayCards s (players s ! i) cards"
      "set cards \<subseteq> set (hand (players s ! i))" "\<not> mset cards \<subseteq># mset (hand (players s ! i))"
      "mset h = mset (hand (players s ! i))"
      "playCards i cards s = Some (False, s\<lparr>players := (players s)[i := (players s ! i)\<lparr>hand := h\<rparr>]\<rparr>)"
  | (played) h where "canPlayCards s (players s ! i) cards"
      "mset cards \<subseteq># mset (hand (players s ! i))"
      "mset h + mset cards = mset (hand (players s ! i))"
      "playCards i cards s = Some (True, applyPlay i h cards s)"
proof (cases "canPlayCards s (players s ! i) cards")
  case False
  with assms have "playCards i cards s = Some (False, s)" by (simp add: playCards_unfold)
  with False show ?thesis by (rule illegal)
next
  case can: True
  show ?thesis
  proof (cases "set cards \<subseteq> set (hand (players s ! i))")
    case False
    with assms can have "playCards i cards s = Some (False, s)"
      by (simp add: playCards_unfold)
    with can False show ?thesis by (rule missing)
  next
    case sub: True
    show ?thesis
    proof (cases cards "hand (players s ! i)" rule: removeCards_cases)
      case (ok h)
      with assms can sub have "playCards i cards s = Some (True, applyPlay i h cards s)"
        by (simp add: playCards_unfold)
      with can ok show ?thesis by (intro played)
    next
      case (undo h)
      with assms can sub have "playCards i cards s =
          Some (False, s\<lparr>players := (players s)[i := (players s ! i)\<lparr>hand := h\<rparr>]\<rparr>)"
        by (simp add: playCards_unfold)
      with can sub undo show ?thesis by (intro undone)
    qed
  qed
qed

lemma accepts_iff:
  "accepts i cards s \<longleftrightarrow>
     i < length (players s) \<and> currentPlayerIndex s < length (players s) \<and>
     canPlayCards s (players s ! i) cards \<and> mset cards \<subseteq># mset (hand (players s ! i))"
proof (cases "i < length (players s) \<and> currentPlayerIndex s < length (players s)")
  case False
  then have "playCards i cards s = None" by (simp add: playCards_None)
  with False show ?thesis by (auto simp: accepts_def)
next
  case True
  then have i: "i < length (players s)" and c: "currentPlayerIndex s < length (players s)"
    by simp_all
  show ?thesis
    using i c
  proof (cases rule: playCards_cases [where cards = cards])
    case missing
    then have "\<not> mset cards \<subseteq># mset (hand (players s ! i))"
      using set_mset_mono by fastforce
    with missing show ?thesis by (simp add: accepts_def)
  qed (use i c in \<open>simp_all add: accepts_def\<close>)
qed

lemma rejects_iff:
  "rejects i cards s \<longleftrightarrow>
     i < length (players s) \<and> currentPlayerIndex s < length (players s) \<and> \<not> accepts i cards s"
proof (cases "playCards i cards s")
  case None
  then have "\<not> (i < length (players s) \<and> currentPlayerIndex s < length (players s))"
    by (simp add: playCards_None)
  with None show ?thesis by (auto simp: rejects_def)
next
  case (Some r)
  then have "i < length (players s) \<and> currentPlayerIndex s < length (players s)"
    using playCards_None [of i cards s] by auto
  with Some show ?thesis by (cases r) (simp add: rejects_def accepts_def)
qed

lemma canPlayCards_current:
  "canPlayCards s (players s ! currentPlayerIndex s) cards \<longleftrightarrow>
     (\<exists>r. cards \<noteq> [] \<and> (\<forall>c\<in>set cards. cvalue c = r) \<and>
          (currentHighestCards s = [] \<or>
           length cards = length (currentHighestCards s) \<and>
           cvalue (hd (currentHighestCards s)) < r))"
proof (cases cards)
  case Nil
  then show ?thesis by (simp add: canPlayCards_def)
next
  case (Cons c0 cs)
  then show ?thesis by (auto simp: canPlayCards_def list_all_iff)
qed

text \<open>
  Claim C1. The current player offers distinct cards of their hand. If the table holds
  \<open>N > 0\<close> cards of rank \<open>R\<close>, \<open>playCards\<close> accepts exactly when the offer has \<open>N\<close> cards
  of one rank above \<open>R\<close>, and rejects otherwise (equal rank, lower rank, another size,
  mixed ranks). If the table is empty, every non-empty offer of one rank is accepted.
\<close>

theorem beat_rule:
  assumes "playerIndex < length (players s)" and "playerIndex = currentPlayerIndex s"
    and "distinct cards" and "set cards \<subseteq> set (hand (players s ! playerIndex))"
  shows "(currentHighestCards s \<noteq> [] \<and> (\<forall>c\<in>set (currentHighestCards s). cvalue c = R) \<and>
          length (currentHighestCards s) = N \<longrightarrow>
            (accepts playerIndex cards s \<longleftrightarrow>
               length cards = N \<and> (\<exists>r. R < r \<and> (\<forall>c\<in>set cards. cvalue c = r))) \<and>
            (rejects playerIndex cards s \<longleftrightarrow>
               \<not> (length cards = N \<and> (\<exists>r. R < r \<and> (\<forall>c\<in>set cards. cvalue c = r))))) \<and>
         (currentHighestCards s = [] \<and> cards \<noteq> [] \<and> (\<exists>r. \<forall>c\<in>set cards. cvalue c = r) \<longrightarrow>
            accepts playerIndex cards s)"
proof -
  have sub: "mset cards \<subseteq># mset (hand (players s ! playerIndex))"
    using assms(3,4) by (rule distinct_subset_mset)
  have acc: "accepts playerIndex cards s \<longleftrightarrow>
      canPlayCards s (players s ! currentPlayerIndex s) cards"
    using assms(1,2) sub by (simp add: accepts_iff)
  have rej: "rejects playerIndex cards s \<longleftrightarrow> \<not> accepts playerIndex cards s"
    using assms(1,2) by (simp add: rejects_iff)
  have empty: "accepts playerIndex cards s"
    if "currentHighestCards s = []" "cards \<noteq> []" "\<exists>r. \<forall>c\<in>set cards. cvalue c = r"
    unfolding acc canPlayCards_current using that by blast
  have beat: "accepts playerIndex cards s \<longleftrightarrow>
      length cards = N \<and> (\<exists>r. R < r \<and> (\<forall>c\<in>set cards. cvalue c = r))"
    if t: "currentHighestCards s \<noteq> []" "\<forall>c\<in>set (currentHighestCards s). cvalue c = R"
      "length (currentHighestCards s) = N"
  proof -
    from t have R: "cvalue (hd (currentHighestCards s)) = R" by simp
    from t have N: "cards \<noteq> [] \<longleftrightarrow> True" if "length cards = N"
      using that by auto
    show ?thesis
      unfolding acc canPlayCards_current R using t(1,3) N by auto
  qed
  show ?thesis
  proof (intro conjI impI)
    assume t: "currentHighestCards s \<noteq> [] \<and>
      (\<forall>c\<in>set (currentHighestCards s). cvalue c = R) \<and> length (currentHighestCards s) = N"
    then show "accepts playerIndex cards s \<longleftrightarrow>
        length cards = N \<and> (\<exists>r. R < r \<and> (\<forall>c\<in>set cards. cvalue c = r))"
      by (intro beat) simp_all
    then show "rejects playerIndex cards s \<longleftrightarrow>
        \<not> (length cards = N \<and> (\<exists>r. R < r \<and> (\<forall>c\<in>set cards. cvalue c = r)))"
      by (simp only: rej)
  next
    assume "currentHighestCards s = [] \<and> cards \<noteq> [] \<and> (\<exists>r. \<forall>c\<in>set cards. cvalue c = r)"
    then show "accepts playerIndex cards s" by (intro empty) simp_all
  qed
qed

lemma game1_cur: "currentPlayerIndex (after [PlayCards 0 (four 3)]) = 1"
  by code_simp

lemma game1_len: "length (players (after [PlayCards 0 (four 3)])) = 4"
  by code_simp

lemma game1_table: "currentHighestCards (after [PlayCards 0 (four 3)]) = four 3"
  by code_simp

lemma game1_hand: "hand (players (after [PlayCards 0 (four 3)]) ! 1) =
     [C Diamonds 6, C Clubs 6, C Spades 6, C Hearts 7, C Diamonds 7, C Clubs 7, C Spades 7,
      C Hearts 8, C Diamonds 8, C Clubs 8, C Spades 8, C Hearts 9, C Diamonds 9]"
  by code_simp

theorem beat_rule_witness:
  "1 < length (players (after [PlayCards 0 (four 3)])) \<and>
   1 = currentPlayerIndex (after [PlayCards 0 (four 3)]) \<and>
   distinct (four 7) \<and>
   set (four 7) \<subseteq> set (hand (players (after [PlayCards 0 (four 3)]) ! 1)) \<and>
   currentHighestCards (after [PlayCards 0 (four 3)]) \<noteq> [] \<and>
   list_all (\<lambda>c. cvalue c = 3) (currentHighestCards (after [PlayCards 0 (four 3)])) \<and>
   length (currentHighestCards (after [PlayCards 0 (four 3)])) = 4 \<and>
   accepts 1 (four 7) (after [PlayCards 0 (four 3)]) \<and>
   rejects 1 [C Diamonds 6, C Clubs 6, C Spades 6] (after [PlayCards 0 (four 3)])"
proof -
  let ?s = "after [PlayCards 0 (four 3)]"
  have h1: "1 < length (players ?s)" unfolding game1_len by simp
  have h2: "1 = currentPlayerIndex ?s" unfolding game1_cur by simp
  have t1: "currentHighestCards ?s \<noteq> []" unfolding game1_table by (simp add: four_def)
  have t2: "\<forall>c\<in>set (currentHighestCards ?s). cvalue c = 3"
    unfolding game1_table by (simp add: four_def C_def)
  have t3: "length (currentHighestCards ?s) = 4" unfolding game1_table by (simp add: four_def)
  have c7: "distinct (four 7)" "set (four 7) \<subseteq> set (hand (players ?s ! 1))"
    unfolding game1_hand by (simp_all add: four_def C_def)
  have c6: "distinct [C Diamonds 6, C Clubs 6, C Spades 6]"
    "set [C Diamonds 6, C Clubs 6, C Spades 6] \<subseteq> set (hand (players ?s ! 1))"
    unfolding game1_hand by (simp_all add: C_def)
  have r7: "length (four 7) = 4 \<and> (\<exists>r. 3 < r \<and> (\<forall>c\<in>set (four 7). cvalue c = r))"
    by (auto simp: four_def C_def)
  have "accepts 1 (four 7) ?s"
    using beat_rule [OF h1 h2 c7, of 3 4] t1 t2 t3 r7 by blast
  moreover have "rejects 1 [C Diamonds 6, C Clubs 6, C Spades 6] ?s"
    using beat_rule [OF h1 h2 c6, of 3 4] t1 t2 t3 by simp
  ultimately show ?thesis using h1 h2 t1 t2 t3 c7 by (simp add: list_all_iff)
qed

subsection \<open>Seats and turn order\<close>

lemma nextTurn_loop_less: "ps \<noteq> [] \<Longrightarrow> nextTurn_loop ps cur a < length ps"
proof (induction ps cur a rule: nextTurn_loop.induct)
  case (1 ps cur attempts)
  then show ?case by (subst nextTurn_loop.simps) simp
qed

lemma endRound_frame [simp]:
  "players (endRound s) = players s" "roundLeader (endRound s) = roundLeader s"
  "finishedPlayers (endRound s) = finishedPlayers s" "gamePhase (endRound s) = gamePhase s"
  by (simp_all add: endRound_def split: option.splits)

lemma endRound_current:
  "players s \<noteq> [] \<Longrightarrow> currentPlayerIndex (endRound s) < length (players s)"
  by (simp add: endRound_def split: option.splits)

lemma endRound_leader:
  "roundLeader s = Some l \<Longrightarrow> l < length (players s) \<Longrightarrow>
     currentPlayerIndex (endRound s) = l \<and> currentHighestCards (endRound s) = [] \<and>
     playersWhoSkipped (endRound s) = [] \<and> currentRound (endRound s) = 0"
  by (simp add: endRound_def)

lemma nextTurn_frame [simp]:
  "players (nextTurn s) = players s" "roundLeader (nextTurn s) = roundLeader s"
  "finishedPlayers (nextTurn s) = finishedPlayers s" "gamePhase (nextTurn s) = gamePhase s"
  by (simp_all add: nextTurn_def Let_def)

lemma nextTurn_current:
  "players s \<noteq> [] \<Longrightarrow> currentPlayerIndex (nextTurn s) < length (players s)"
  using endRound_current [of "s\<lparr>currentPlayerIndex := nextTurn_loop (players s) (currentPlayerIndex s) 0,
                 currentRound := currentRound s + 1\<rparr>"]
  by (simp add: nextTurn_def Let_def nextTurn_loop_less)

lemma map_update_field:
  "(\<And>p. f (g p) = f p) \<Longrightarrow> map f (ps[k := g (ps ! k)]) = map f ps"
proof (induction ps arbitrary: k)
  case Nil
  then show ?case by simp
next
  case (Cons p ps)
  then show ?case by (cases k) simp_all
qed

lemma map_update_player [simp]:
  "map pid (ps[k := (ps ! k)\<lparr>finishPosition := v\<rparr>]) = map pid ps"
  "map pid (ps[k := (ps ! k)\<lparr>isWinner := w\<rparr>]) = map pid ps"
  "map hand (ps[k := (ps ! k)\<lparr>finishPosition := v\<rparr>]) = map hand ps"
  "map hand (ps[k := (ps ! k)\<lparr>isWinner := w\<rparr>]) = map hand ps"
  "map pid (ps[k := (ps ! k)\<lparr>hand := h\<rparr>]) = map pid ps"
  "map finishPosition (ps[k := (ps ! k)\<lparr>hand := h\<rparr>]) = map finishPosition ps"
  "map finishPosition (ps[k := (ps ! k)\<lparr>isWinner := w\<rparr>]) = map finishPosition ps"
  by (rule map_update_field, simp)+

lemma map_update_twice:
  assumes "\<And>p. f (g1 p) = f p" and "\<And>p. f (g2 p) = f p"
  shows "map f (ps[k := g2 (ps[k := g1 (ps ! k)] ! k)]) = map f ps"
proof (cases "k < length ps")
  case True
  then have "ps[k := g2 (ps[k := g1 (ps ! k)] ! k)] = ps[k := (\<lambda>p. g2 (g1 p)) (ps ! k)]"
    by simp
  also have "map f \<dots> = map f ps"
    by (rule map_update_field) (simp add: assms)
  finally show ?thesis .
next
  case False
  then have "length ps \<le> k" by simp
  then show ?thesis by (simp only: list_update_beyond)
qed

lemma map_update_winner [simp]:
  "map pid (ps[k := (ps[k := (ps ! k)\<lparr>finishPosition := v\<rparr>] ! k)\<lparr>isWinner := w\<rparr>]) = map pid ps"
  "map hand (ps[k := (ps[k := (ps ! k)\<lparr>finishPosition := v\<rparr>] ! k)\<lparr>isWinner := w\<rparr>]) = map hand ps"
  by (rule map_update_twice, simp, simp)+

lemma markFinished_frame [simp]:
  "length (players (markFinished i s)) = length (players s)"
  "map pid (players (markFinished i s)) = map pid (players s)"
  "map hand (players (markFinished i s)) = map hand (players s)"
  "roundLeader (markFinished i s) = roundLeader s"
  "currentPlayerIndex (markFinished i s) = currentPlayerIndex s"
  "currentHighestCards (markFinished i s) = currentHighestCards s"
  "playersWhoSkipped (markFinished i s) = playersWhoSkipped s"
  "currentRound (markFinished i s) = currentRound s"
  by (simp_all add: markFinished_def Let_def)

lemma finishLast_frame [simp]:
  "length (players (finishLast s)) = length (players s)"
  "map pid (players (finishLast s)) = map pid (players s)"
  "map hand (players (finishLast s)) = map hand (players s)"
  "roundLeader (finishLast s) = roundLeader s"
  "currentPlayerIndex (finishLast s) = currentPlayerIndex s"
  "currentHighestCards (finishLast s) = currentHighestCards s"
  "playersWhoSkipped (finishLast s) = playersWhoSkipped s"
  "currentRound (finishLast s) = currentRound s"
  "finishedPlayers (finishLast s) = finishedPlayers s"
  by (simp_all add: finishLast_def split: list.splits)

lemma handlePlayerFinished_frame [simp]:
  "length (players (handlePlayerFinished i s)) = length (players s)"
  "map pid (players (handlePlayerFinished i s)) = map pid (players s)"
  "map hand (players (handlePlayerFinished i s)) = map hand (players s)"
  "roundLeader (handlePlayerFinished i s) = roundLeader s"
  "currentPlayerIndex (handlePlayerFinished i s) = currentPlayerIndex s"
  "currentHighestCards (handlePlayerFinished i s) = currentHighestCards s"
  "playersWhoSkipped (handlePlayerFinished i s) = playersWhoSkipped s"
  "currentRound (handlePlayerFinished i s) = currentRound s"
  by (simp_all add: handlePlayerFinished_def)

lemma applyPlay_frame [simp]:
  "length (players (applyPlay i h cs s)) = length (players s)"
  "map pid (players (applyPlay i h cs s)) = map pid (players s)"
  "roundLeader (applyPlay i h cs s) = Some i"
  by (simp_all add: applyPlay_def Let_def)

lemma applyPlay_current:
  "players s \<noteq> [] \<Longrightarrow> currentPlayerIndex (applyPlay i h cs s) < length (players s)"
proof -
  assume ne: "players s \<noteq> []"
  define s2 where "s2 = (let player = players s ! i;
          s1 = s\<lparr>players := (players s)[i := player\<lparr>hand := h\<rparr>],
                 currentHighestCards := cs,
                 currentHighestCard := (case cs of [] \<Rightarrow> None | c # _ \<Rightarrow> Some c),
                 centerCards := cs, lastPlayedCards := cs, roundLeader := Some i,
                 roundWinner := Some (pid player), playersWhoSkipped := [],
                 consecutiveSkips := 0\<rparr>
      in if h = [] then handlePlayerFinished i s1 else s1)"
  have a: "applyPlay i h cs s = nextTurn s2"
    by (simp add: applyPlay_def s2_def Let_def)
  have l: "length (players s2) = length (players s)"
    by (simp add: s2_def Let_def)
  with ne have "players s2 \<noteq> []" by auto
  from nextTurn_current [OF this] l show ?thesis by (simp add: a)
qed

lemma skipTurn_frame:
  assumes "skipTurn s = Some s'"
  shows "players s' = players s" "roundLeader s' = roundLeader s"
    "finishedPlayers s' = finishedPlayers s" "gamePhase s' = gamePhase s"
  using assms by (auto simp: skipTurn_def Let_def split: if_splits option.splits)

lemma skipTurn_current:
  assumes "skipTurn s = Some s'" and "players s \<noteq> []"
  shows "currentPlayerIndex s' < length (players s)"
proof -
  let ?t = "nextTurn (s\<lparr>playersWhoSkipped := set_add (currentPlayerIndex s) (playersWhoSkipped s)\<rparr>)"
  have p: "players ?t = players s" by simp
  from assms(1) have "s' = ?t \<or> s' = endRound ?t"
    by (auto simp: skipTurn_def Let_def split: if_splits option.splits)
  moreover have "currentPlayerIndex ?t < length (players s)"
    using nextTurn_current [of "s\<lparr>playersWhoSkipped := set_add (currentPlayerIndex s) (playersWhoSkipped s)\<rparr>"] assms(2)
    by simp
  moreover have "currentPlayerIndex (endRound ?t) < length (players s)"
    using endRound_current [of ?t] assms(2) p by simp
  ultimately show ?thesis by auto
qed

lemma wf_new_GameState:
  assumes "length ps = 4" and "distinct (map fst ps)" and "start < 4"
  shows "wf (new_GameState ps rnd start)"
proof -
  obtain qs e where loop: "dealCards_loop (initial_players ps) (createDeck rnd) = (qs, e)"
    by (cases "dealCards_loop (initial_players ps) (createDeck rnd)")
  note props = dealCards_loop_props [OF loop]
  note st = new_GameState_players [OF loop, of start]
  have "map pid (initial_players ps) = map fst ps"
    by (simp add: initial_players_def list_eq_iff_nth_eq nth_enumerate_eq)
  with props st assms have "distinct (map pid (players (new_GameState ps rnd start)))"
    and "length (players (new_GameState ps rnd start)) = 4"
    by (simp_all add: initial_players_def)
  moreover have "currentPlayerIndex (new_GameState ps rnd start) = start"
    and "roundLeader (new_GameState ps rnd start) = None"
    by (simp_all add: new_GameState_def dealCards_def split: prod.splits)
  ultimately show ?thesis using assms(3) by (simp add: wf_def)
qed

lemma wf_playCards:
  assumes "wf s" and "playCards i cards s = Some (b, s')"
  shows "wf s'"
proof -
  from assms(2) have i: "i < length (players s)" and c: "currentPlayerIndex s < length (players s)"
    using playCards_None [of i cards s] by auto
  from assms(1) have ne: "players s \<noteq> []" by (auto simp: wf_def)
  from i c show ?thesis
  proof (cases rule: playCards_cases [where cards = cards])
    case illegal
    with assms show ?thesis by simp
  next
    case missing
    with assms show ?thesis by simp
  next
    case (undone h)
    with assms show ?thesis by (auto simp: wf_def)
  next
    case (played h)
    with assms have s': "s' = applyPlay i h cards s" by simp
    from assms(1) i applyPlay_current [OF ne, of i h cards] show ?thesis
      by (simp add: wf_def s')
  qed
qed

lemma wf_guardedSkipTurn:
  assumes "wf s" and "guardedSkipTurn i s = Some (b, s')"
  shows "wf s'"
proof (cases "i = currentPlayerIndex s")
  case False
  with assms show ?thesis by (simp add: guardedSkipTurn_def)
next
  case True
  with assms(2) have sk: "skipTurn s = Some s'" by (auto simp: guardedSkipTurn_def)
  from assms(1) have ne: "players s \<noteq> []" by (auto simp: wf_def)
  from skipTurn_frame [OF sk] skipTurn_current [OF sk ne] assms(1) show ?thesis
    by (simp add: wf_def)
qed

lemma wf_deliver: "wf s \<Longrightarrow> deliver m s = Some (b, s') \<Longrightarrow> wf s'"
  by (cases m) (auto intro: wf_playCards wf_guardedSkipTurn)

lemma reachable_wf: "reachable s \<Longrightarrow> wf s"
  by (induction rule: reachable.induct) (auto intro: wf_new_GameState wf_deliver)

lemma reachable_run: "reachable s \<Longrightarrow> run ms s = Some s' \<Longrightarrow> reachable s'"
proof (induction ms arbitrary: s)
  case Nil
  then show ?case by simp
next
  case (Cons m ms)
  from Cons.prems(2) obtain b t where d: "deliver m s = Some (b, t)" and r: "run ms t = Some s'"
    by (auto split: option.splits)
  from Cons.prems(1) d have "reachable t" by (rule reachable.step)
  then show ?case using r by (rule Cons.IH)
qed

lemma reachable_game0: "reachable game0"
  unfolding game0_def
  by (rule reachable.start) (simp_all add: demo_players_def draws_ok_demo_rnd)

lemma reachable_after: "run ms game0 \<noteq> None \<Longrightarrow> reachable (after ms)"
  using reachable_run [OF reachable_game0, of ms] by (auto simp: after_def)

lemma distinct_pid_nth:
  "distinct (map pid ps) \<Longrightarrow> i < length ps \<Longrightarrow> j < length ps \<Longrightarrow>
     pid (ps ! i) = pid (ps ! j) \<longleftrightarrow> i = j"
  using nth_eq_iff_index_eq [of "map pid ps" i j] by simp

text \<open>
  The engine rejects every index other than the current one: in a reachable state the four
  ids differ, so \<open>canPlayCards\<close> fails for the player at another index and \<open>playCards\<close>
  returns false with the state untouched; the guard of the skip handler returns.
\<close>

lemma other_index_rejected:
  assumes "reachable s" and "seat < length (players s)" and "seat \<noteq> currentPlayerIndex s"
  shows "playCards seat cards s = Some (False, s) \<and> guardedSkipTurn seat s = Some (False, s)"
proof -
  from assms(1) have wf: "wf s" by (rule reachable_wf)
  then have c: "currentPlayerIndex s < length (players s)"
    and d: "distinct (map pid (players s))" by (simp_all add: wf_def)
  from d assms(2,3) c have "pid (players s ! currentPlayerIndex s) \<noteq> pid (players s ! seat)"
    by (simp add: distinct_pid_nth)
  then have "\<not> canPlayCards s (players s ! seat) cards" by (simp add: canPlayCards_def)
  with assms(2) c have "playCards seat cards s = Some (False, s)"
    by (simp add: playCards_unfold)
  moreover from assms(3) have "guardedSkipTurn seat s = Some (False, s)"
    by (simp add: guardedSkipTurn_def)
  ultimately show ?thesis ..
qed

subsection \<open>The sender of a message and its seat\<close>

text \<open>Every state of the game that the handlers produce is a reachable one.\<close>

lemma handle_game:
  assumes "gameState room = Some g" and "handle e room = Some room'"
  shows "\<exists>g'. gameState room' = Some g' \<and> (g' = g \<or> (\<exists>m b. deliver m g = Some (b, g')))"
proof (cases e)
  case (Play socketId cards)
  show ?thesis
  proof (cases "findIndex (\<lambda>p. fst p = socketId) (roomPlayers room)")
    case None
    with assms Play show ?thesis by (auto simp: on_playCards_def)
  next
    case (Some i)
    with assms Play obtain b g' where pc: "playCards i cards g = Some (b, g')"
      and r: "room' = room\<lparr>gameState := Some g'\<rparr>"
      by (auto simp: on_playCards_def)
    from pc have "deliver (PlayCards i cards) g = Some (b, g')" by simp
    then have "\<exists>m b. deliver m g = Some (b, g')" by blast
    with r show ?thesis by simp
  qed
next
  case (Skip socketId)
  show ?thesis
  proof (cases "findIndex (\<lambda>p. fst p = socketId) (roomPlayers room)")
    case None
    with assms Skip show ?thesis by (auto simp: on_skipTurn_def)
  next
    case (Some i)
    show ?thesis
    proof (cases "i = currentPlayerIndex g")
      case False
      with assms Skip Some show ?thesis by (auto simp: on_skipTurn_def)
    next
      case True
      with assms Skip Some obtain g' where sk: "skipTurn g = Some g'"
        and r: "room' = room\<lparr>gameState := Some g'\<rparr>"
        by (auto simp: on_skipTurn_def)
      from sk True have "deliver (SkipTurn i) g = Some (True, g')"
        by (simp add: guardedSkipTurn_def)
      then have "\<exists>m b. deliver m g = Some (b, g')" by blast
      with r show ?thesis by simp
    qed
  qed
next
  case (Disconnect socketId)
  with assms show ?thesis by (auto simp: on_disconnecting_def)
qed

lemma room_reachable_game:
  "room_reachable room \<Longrightarrow> \<exists>g. gameState room = Some g \<and> reachable g"
proof (induction rule: room_reachable.induct)
  case (created ps rnd start)
  then show ?case by (simp add: reachable.start)
next
  case (handled room e room')
  then obtain g where g: "gameState room = Some g" and r: "reachable g" by blast
  from handle_game [OF g handled.hyps(2)] r show ?case
    by (auto intro: reachable.step)
qed

lemma room_reachable_run:
  "room_reachable room \<Longrightarrow> room_run es room = Some room' \<Longrightarrow> room_reachable room'"
proof (induction es arbitrary: room)
  case Nil
  then show ?case by simp
next
  case (Cons e es)
  from Cons.prems(2) obtain t where h: "handle e room = Some t" and r: "room_run es t = Some room'"
    by (auto split: option.splits)
  from Cons.prems(1) h have "room_reachable t" by (rule room_reachable.handled)
  then show ?case using r by (rule Cons.IH)
qed

lemma room_reachable_room0: "room_reachable room0"
  unfolding room0_def game0_def
  by (rule room_reachable.created) (simp_all add: demo_players_def draws_ok_demo_rnd)

lemma room_reachable_after: "room_run es room0 \<noteq> None \<Longrightarrow> room_reachable (room_after es)"
  using room_reachable_run [OF room_reachable_room0, of es] by (auto simp: room_after_def)

text \<open>
  As long as \<open>room.players\<close> lists the four players of the game, the lookup of the handlers
  gives the sender's seat, and a message of a player whose seat is not the current one is
  rejected and changes nothing.
\<close>

lemma findIndex_map: "findIndex P (map f xs) = findIndex (\<lambda>x. P (f x)) xs"
  by (induction xs) simp_all

lemma lookup_is_seat:
  assumes "map fst (roomPlayers room) = map pid (players g)"
  shows "findIndex (\<lambda>p. fst p = socketId) (roomPlayers room) = seatOf socketId g"
proof -
  have "findIndex (\<lambda>p. fst p = socketId) (roomPlayers room)
      = findIndex (\<lambda>x. x = socketId) (map fst (roomPlayers room))"
    by (simp add: findIndex_map)
  also have "\<dots> = findIndex (\<lambda>x. x = socketId) (map pid (players g))"
    by (simp only: assms)
  also have "\<dots> = seatOf socketId g"
    by (simp add: findIndex_map seatOf_def)
  finally show ?thesis .
qed

lemma full_room_rejects:
  assumes "room_reachable room" and "gameState room = Some g"
    and "map fst (roomPlayers room) = map pid (players g)"
    and "seatOf socketId g = Some seat" and "seat \<noteq> currentPlayerIndex g"
  shows "on_playCards socketId cards room = Some (False, room) \<and>
         on_skipTurn socketId room = Some (False, room)"
proof -
  from room_reachable_game [OF assms(1)] assms(2) have r: "reachable g" by simp
  from assms(4) have l: "seat < length (players g)"
    unfolding seatOf_def by (auto dest: findIndex_Some)
  have f: "findIndex (\<lambda>p. fst p = socketId) (roomPlayers room) = Some seat"
    using lookup_is_seat [OF assms(3)] assms(4) by simp
  have e: "room\<lparr>gameState := Some g\<rparr> = room" using assms(2) by simp
  from other_index_rejected [OF r l assms(5), of cards] assms(2,5) f e
  show ?thesis by (simp add: on_playCards_def on_skipTurn_def)
qed

text \<open>The concrete match after the first seat has led its four 3s and disconnected.\<close>

lemma left_a_ok: "room_run left_a room0 \<noteq> None"
  by code_simp

lemma left_a_room:
  "map fst (roomPlayers (room_after left_a)) = [''b'', ''c'', ''d'']"
  "map pid (players (game_after left_a)) = [''a'', ''b'', ''c'', ''d'']"
  "seatOf ''c'' (game_after left_a) = Some 2"
  "currentPlayerIndex (game_after left_a) = 1"
  "gamePhase (game_after left_a) = Playing"
  "map (length \<circ> hand) (players (game_after left_a)) = [9, 13, 13, 13]"
  by code_simp+

lemma before_a_left:
  "on_skipTurn ''c'' (room_after [Play ''a'' (four 3)])
     = Some (False, room_after [Play ''a'' (four 3)])"
  "on_playCards ''c'' (four 10) (room_after [Play ''a'' (four 3)])
     = Some (False, room_after [Play ''a'' (four 3)])"
  by code_simp+

lemma skip_by_c:
  "on_skipTurn ''c'' (room_after left_a) = Some (True, room_after (left_a @ [Skip ''c'']))"
  "currentPlayerIndex (game_after (left_a @ [Skip ''c''])) = 2"
  "playersWhoSkipped (game_after (left_a @ [Skip ''c''])) = [1]"
  by code_simp+

lemma play_by_c:
  "on_playCards ''c'' (four 7) (room_after left_a)
     = Some (True, room_after (left_a @ [Play ''c'' (four 7)]))"
  "currentHighestCards (game_after (left_a @ [Play ''c'' (four 7)])) = four 7"
  "roundLeader (game_after (left_a @ [Play ''c'' (four 7)])) = Some 1"
  "currentPlayerIndex (game_after (left_a @ [Play ''c'' (four 7)])) = 2"
  "map (length \<circ> hand) (players (game_after (left_a @ [Play ''c'' (four 7)]))) = [9, 9, 13, 13]"
  by code_simp+

text \<open>
  Claim C7. A \<open>playCards\<close> or \<open>skipTurn\<close> request of a seat other than the current one is not
  always rejected. The handlers take the sender's position in \<open>room.players\<close> for its seat,
  and \<open>disconnecting\<close> shortens \<open>room.players\<close> while the game keeps its four seats. In the
  concrete match, once the player of the first seat has played and disconnected, it is the
  turn of the second seat, and the player \<open>c\<close> of the third seat is looked up at index 1:
  its \<open>skipTurn\<close> is carried out (the second seat is recorded as having skipped and the turn
  moves on), and its \<open>playCards\<close> with the four 7s, which lie in the hand of the second
  seat, is accepted and played out of that hand. Before the disconnect both requests are
  rejected and change nothing.
\<close>

theorem turn_legality_lost_by_disconnect:
  "room_reachable (room_after left_a) \<and>
   map fst (roomPlayers (room_after left_a)) = [''b'', ''c'', ''d''] \<and>
   map pid (players (game_after left_a)) = [''a'', ''b'', ''c'', ''d''] \<and>
   seatOf ''c'' (game_after left_a) = Some 2 \<and>
   currentPlayerIndex (game_after left_a) = 1 \<and>
   gamePhase (game_after left_a) = Playing \<and>
   on_skipTurn ''c'' (room_after left_a) = Some (True, room_after (left_a @ [Skip ''c''])) \<and>
   currentPlayerIndex (game_after (left_a @ [Skip ''c''])) = 2 \<and>
   playersWhoSkipped (game_after (left_a @ [Skip ''c''])) = [1] \<and>
   on_playCards ''c'' (four 7) (room_after left_a)
     = Some (True, room_after (left_a @ [Play ''c'' (four 7)])) \<and>
   currentHighestCards (game_after (left_a @ [Play ''c'' (four 7)])) = four 7 \<and>
   map (length \<circ> hand) (players (game_after left_a)) = [9, 13, 13, 13] \<and>
   map (length \<circ> hand) (players (game_after (left_a @ [Play ''c'' (four 7)])))
     = [9, 9, 13, 13] \<and>
   on_skipTurn ''c'' (room_after [Play ''a'' (four 3)])
     = Some (False, room_after [Play ''a'' (four 3)]) \<and>
   on_playCards ''c'' (four 10) (room_after [Play ''a'' (four 3)])
     = Some (False, room_after [Play ''a'' (four 3)])"
proof -
  have "room_reachable (room_after left_a)"
    using left_a_ok by (rule room_reachable_after)
  then show ?thesis
    by (simp only: left_a_room skip_by_c play_by_c before_a_left simp_thms)
qed

subsection \<open>Rejected plays\<close>


lemma game0_hand: "hand (players game0 ! 0) = four 3 @ four 4 @ four 5 @ [C Hearts 6]"
  by code_simp

lemma twice_rejected: "fst (the (playCards 0 [C Hearts 3, C Hearts 3] game0)) = False"
  by code_simp

lemma twice_hand:
  "hand (players (snd (the (playCards 0 [C Hearts 3, C Hearts 3] game0))) ! 0) =
     [C Diamonds 3, C Clubs 3, C Spades 3] @ four 4 @ four 5 @ [C Hearts 6, C Hearts 3]"
  by code_simp

lemma twice_state: "snd (the (playCards 0 [C Hearts 3, C Hearts 3] game0)) \<noteq> game0"
  by code_simp

text \<open>
  Claim C4 fails on the code. In the first state of the concrete match the current player
  sends the 3 of hearts twice. Both entries pass the check against the hand, the removal
  loop takes the card out, does not find it a second time, pushes it back at the end of
  the hand and returns false: the call is rejected, yet the 3 of hearts has moved from the
  front of the hand to its end.
\<close>

theorem rejected_play_reorders_hand:
  "reachable game0 \<and> currentPlayerIndex game0 = 0 \<and>
   fst (the (playCards 0 [C Hearts 3, C Hearts 3] game0)) = False \<and>
   hand (players game0 ! 0) = four 3 @ four 4 @ four 5 @ [C Hearts 6] \<and>
   hand (players (snd (the (playCards 0 [C Hearts 3, C Hearts 3] game0))) ! 0) =
     [C Diamonds 3, C Clubs 3, C Spades 3] @ four 4 @ four 5 @ [C Hearts 6, C Hearts 3] \<and>
   snd (the (playCards 0 [C Hearts 3, C Hearts 3] game0)) \<noteq> game0"
proof -
  have "currentPlayerIndex game0 = 0" by code_simp
  with reachable_game0 game0_hand twice_rejected twice_hand twice_state show ?thesis
    by (simp only: simp_thms)
qed

subsection \<open>The effect of an accepted play\<close>

lemma activeCount_map:
  "activeCount ps = length (filter (\<lambda>x. x = None) (map finishPosition ps))"
  by (simp add: activeCount_def filter_map comp_def)

lemma activeCount_hand [simp]: "activeCount (ps[k := (ps ! k)\<lparr>hand := h\<rparr>]) = activeCount ps"
  by (simp add: activeCount_map)

lemma applyPlay_hands:
  "map hand (players (applyPlay i h cs s)) = (map hand (players s))[i := h]"
  by (simp add: applyPlay_def Let_def map_update)

lemma applyPlay_keeps_cards:
  assumes "h \<noteq> []" and "i < length (players s)"
  shows "roundLeader (applyPlay i h cs s) = Some i"
    "playersWhoSkipped (applyPlay i h cs s) = []"
    "activeCount (players s) \<le> currentRound s + 1 \<Longrightarrow>
       currentHighestCards (applyPlay i h cs s) = [] \<and> currentPlayerIndex (applyPlay i h cs s) = i"
    "\<not> activeCount (players s) \<le> currentRound s + 1 \<Longrightarrow>
       currentHighestCards (applyPlay i h cs s) = cs"
  using assms by (simp_all add: applyPlay_def Let_def nextTurn_def endRound_def)

lemma three_plays_ok:
  "playCards 3 [C Spades 12] (after three_plays) = Some (True, after four_plays)"
  by code_simp

lemma four_plays_hand: "length (hand (players (after four_plays) ! 3)) = 12"
  by code_simp

lemma four_plays_table: "currentHighestCards (after four_plays) = []"
  by code_simp

lemma four_plays_turn: "currentPlayerIndex (after four_plays) = 3"
  by code_simp

lemma three_plays_round:
  "currentRound (after three_plays) = 3" "activeCount (players (after three_plays)) = 4"
  by code_simp+

text \<open>
  Claim C3 as stated fails. In the concrete match the four seats play one card each, every
  card above the one before (3, 6, 9, queen). The fourth play is accepted and leaves
  twelve cards in that hand, but \<open>nextTurn\<close> has then counted four turns for four active
  players and calls \<open>endRound\<close>: the table is empty after the play.
\<close>

theorem accepted_play_table_counterexample:
  "\<not> (\<forall>s i cards s'.
        playCards i cards s = Some (True, s') \<and> hand (players s' ! i) \<noteq> [] \<longrightarrow>
        currentHighestCards s' = cards \<and> roundLeader s' = Some i \<and> playersWhoSkipped s' = [])"
proof
  assume "\<forall>s i cards s'.
        playCards i cards s = Some (True, s') \<and> hand (players s' ! i) \<noteq> [] \<longrightarrow>
        currentHighestCards s' = cards \<and> roundLeader s' = Some i \<and> playersWhoSkipped s' = []"
  moreover have "hand (players (after four_plays) ! 3) \<noteq> []"
    using four_plays_hand by auto
  ultimately have "currentHighestCards (after four_plays) = [C Spades 12]"
    using three_plays_ok by blast
  then show False by (simp add: four_plays_table)
qed

text \<open>
  Claim C3, amended. After an accepted play that leaves cards in the acting hand, the
  round leader is the acting seat and nobody is marked as having skipped. The table holds
  exactly the played cards, unless the play is the turn that brings \<open>currentRound\<close> up to
  the number of players without a finish position: then \<open>nextTurn\<close> ends the round, the
  table is empty and the acting seat is the current seat again.
\<close>

theorem accepted_play_effect:
  assumes "playCards i cards s = Some (True, s')" and "hand (players s' ! i) \<noteq> []"
  shows "roundLeader s' = Some i \<and> playersWhoSkipped s' = [] \<and>
         (if activeCount (players s) \<le> currentRound s + 1
          then currentHighestCards s' = [] \<and> currentPlayerIndex s' = i
          else currentHighestCards s' = cards)"
proof -
  from assms(1) have i: "i < length (players s)" and c: "currentPlayerIndex s < length (players s)"
    using playCards_None [of i cards s] by auto
  from i c obtain h where s': "s' = applyPlay i h cards s"
    by (cases rule: playCards_cases [where cards = cards]) (use assms(1) in auto)
  have "map hand (players s') ! i = h"
    using i by (simp add: s' applyPlay_hands)
  with i have "hand (players s' ! i) = h" by (simp add: s')
  with assms(2) have h: "h \<noteq> []" by simp
  from applyPlay_keeps_cards [OF h i, of cards] show ?thesis
    by (simp add: s')
qed

theorem accepted_play_effect_witness:
  "playCards 3 [C Spades 12] (after three_plays) = Some (True, after four_plays) \<and>
   hand (players (after four_plays) ! 3) \<noteq> [] \<and>
   activeCount (players (after three_plays)) \<le> currentRound (after three_plays) + 1 \<and>
   roundLeader (after four_plays) = Some 3 \<and> playersWhoSkipped (after four_plays) = [] \<and>
   currentHighestCards (after four_plays) = [] \<and> currentPlayerIndex (after four_plays) = 3"
proof -
  have h: "hand (players (after four_plays) ! 3) \<noteq> []"
    using four_plays_hand by auto
  have r: "activeCount (players (after three_plays)) \<le> currentRound (after three_plays) + 1"
    by (simp add: three_plays_round)
  from accepted_play_effect [OF three_plays_ok h] r three_plays_ok h show ?thesis
    by simp
qed

subsection \<open>A player who goes out\<close>

lemma three_rounds_ok: "run three_rounds game0 \<noteq> None"
  by code_simp

lemma last_card_ok: "run last_card game0 \<noteq> None"
  by code_simp

lemma two_skips_ok: "run two_skips game0 \<noteq> None"
  by code_simp

lemma three_rounds_state:
  "currentPlayerIndex (after three_rounds) = 0"
  "hand (players (after three_rounds) ! 0) = [C Hearts 6]"
  "finishedPlayers (after three_rounds) = 0"
  "currentHighestCards (after three_rounds) = []"
  by code_simp+

lemma last_card_play:
  "playCards 0 [C Hearts 6] (after three_rounds) = Some (True, after last_card)"
  by code_simp

lemma last_card_state:
  "hand (players (after last_card) ! 0) = []"
  "finishPosition (players (after last_card) ! 0) = Some 1"
  "finishedPlayers (after last_card) = 1"
  "gamePhase (after last_card) = Playing"
  "currentPlayerIndex (after last_card) = 1"
  "currentHighestCards (after last_card) = [C Hearts 6]"
  "roundLeader (after last_card) = Some 0"
  by code_simp+

text \<open>
  Claim C6 fails on the code. In the concrete match the first seat wins three rounds with
  four of a kind and then plays its last card, the 6 of hearts, on the empty table. The
  play is accepted, the hand is empty, the seat is the first to finish and the game goes
  on; but the 6 of hearts stays on the table and the seat stays the round leader.
\<close>

theorem finishing_play_keeps_table:
  "reachable (after three_rounds) \<and>
   finishedPlayers (after three_rounds) = 0 \<and>
   playCards 0 [C Hearts 6] (after three_rounds) = Some (True, after last_card) \<and>
   hand (players (after last_card) ! 0) = [] \<and>
   finishPosition (players (after last_card) ! 0) = Some 1 \<and>
   gamePhase (after last_card) = Playing \<and>
   currentPlayerIndex (after last_card) = 1 \<and>
   currentHighestCards (after last_card) = [C Hearts 6] \<and>
   roundLeader (after last_card) = Some 0"
  using reachable_after [OF three_rounds_ok] three_rounds_state last_card_play last_card_state
  by (simp only: simp_thms)

lemma two_skips_state:
  "gamePhase (after two_skips) = Playing"
  "currentPlayerIndex (after two_skips) = 0"
  "finishPosition (players (after two_skips) ! 0) = Some 1"
  "map (\<lambda>p. length (hand p)) (players (after two_skips)) = [0, 13, 13, 13]"
  "map finishPosition (players (after two_skips)) = [Some 1, None, None, None]"
  by code_simp+

text \<open>
  Claim C9 fails on the code. After the first seat has gone out in the concrete match, the
  second and the third seat skip. With the second skip \<open>nextTurn\<close> has counted three turns
  for three active players and calls \<open>endRound\<close>, which hands the turn to the round leader:
  the seat that has finished. The game is not over, three players hold 13 cards each, and
  the current seat has finish position 1.
\<close>

theorem turn_on_finished_player:
  "reachable (after two_skips) \<and>
   gamePhase (after two_skips) = Playing \<and>
   currentPlayerIndex (after two_skips) = 0 \<and>
   finishPosition (players (after two_skips) ! 0) = Some 1 \<and>
   map (\<lambda>p. length (hand p)) (players (after two_skips)) = [0, 13, 13, 13] \<and>
   map finishPosition (players (after two_skips)) = [Some 1, None, None, None]"
  using reachable_after [OF two_skips_ok] two_skips_state
  by (simp only: simp_thms)

subsection \<open>Closing a round\<close>

lemma others_skipped_iff:
  "others_skipped l ps skipped \<longleftrightarrow>
     (\<forall>j<length ps. j \<noteq> l \<and> finishPosition (ps ! j) = None \<longrightarrow> j \<in> set skipped)"
  by (auto simp: others_skipped_def list_all_iff)

lemma findIndex_pid:
  assumes "distinct (map pid ps)" and "idx < length ps"
  shows "findIndex (\<lambda>pl. pid pl = pid (ps ! idx)) ps = Some idx"
proof (cases "findIndex (\<lambda>pl. pid pl = pid (ps ! idx)) ps")
  case None
  with assms(2) show ?thesis by (auto simp: findIndex_None)
next
  case (Some k)
  from findIndex_Some [OF Some] have "k < length ps" and "pid (ps ! k) = pid (ps ! idx)"
    by simp_all
  with assms have "k = idx" by (simp add: distinct_pid_nth)
  with Some show ?thesis by simp
qed

lemma nextTurn_skipped:
  assumes "roundLeader s = Some l" and "l < length (players s)"
    and "currentPlayerIndex (nextTurn s) \<noteq> l"
  shows "playersWhoSkipped (nextTurn s) = playersWhoSkipped s"
proof -
  let ?s1 = "s\<lparr>currentPlayerIndex := nextTurn_loop (players s) (currentPlayerIndex s) 0,
                currentRound := currentRound s + 1\<rparr>"
  show ?thesis
  proof (cases "activeCount (players s) \<le> currentRound s + 1")
    case True
    then have "nextTurn s = endRound ?s1" by (simp add: nextTurn_def Let_def)
    with endRound_leader [of ?s1 l] assms show ?thesis by simp
  next
    case False
    then show ?thesis by (simp add: nextTurn_def Let_def)
  qed
qed

lemma skipTurn_closes:
  assumes wf: "wf s" and l: "roundLeader s = Some l"
    and sk: "others_skipped l (players s) (set_add (currentPlayerIndex s) (playersWhoSkipped s))"
  shows "\<exists>s'. skipTurn s = Some s' \<and> currentPlayerIndex s' = l \<and>
           currentHighestCards s' = [] \<and> playersWhoSkipped s' = []"
proof -
  let ?s0 = "s\<lparr>playersWhoSkipped := set_add (currentPlayerIndex s) (playersWhoSkipped s)\<rparr>"
  let ?t = "nextTurn ?s0"
  from wf l have c: "currentPlayerIndex s < length (players s)"
    and ll: "l < length (players s)" and d: "distinct (map pid (players s))"
    by (simp_all add: wf_def)
  have lt: "roundLeader ?t = Some l" and pt: "players ?t = players s"
    using l by simp_all
  have closed: "currentPlayerIndex (endRound ?t) = l \<and> currentHighestCards (endRound ?t) = [] \<and>
      playersWhoSkipped (endRound ?t) = []"
    using endRound_leader [OF lt] ll pt by simp
  have "skipTurn s = Some (endRound ?t)"
  proof (cases "currentPlayerIndex ?t = l")
    case True
    with c lt show ?thesis by (simp add: skipTurn_def Let_def)
  next
    case False
    have skt: "playersWhoSkipped ?t = set_add (currentPlayerIndex s) (playersWhoSkipped s)"
      using nextTurn_skipped [of ?s0 l] l ll False by simp
    have "list_all (\<lambda>(idx, p).
             case findIndex (\<lambda>pl. pid pl = pid p) (players ?t) of
               Some k \<Rightarrow> k \<in> set (playersWhoSkipped ?t) | None \<Rightarrow> False)
           (filter (\<lambda>(idx, p). finishPosition p = None \<and> idx \<noteq> l) (enumerate 0 (players ?t)))"
      unfolding list_all_iff
    proof (intro ballI)
      fix x assume x: "x \<in> set (filter (\<lambda>(idx, p). finishPosition p = None \<and> idx \<noteq> l)
                                (enumerate 0 (players ?t)))"
      obtain idx p where xp: "x = (idx, p)" by (cases x)
      with x pt have idx: "idx < length (players s)" and p: "p = players s ! idx"
        and act: "finishPosition p = None" and nl: "idx \<noteq> l"
        by (auto simp: in_set_enumerate_eq)
      from sk idx have "idx = l \<or> finishPosition (players s ! idx) \<noteq> None \<or>
          idx \<in> set (set_add (currentPlayerIndex s) (playersWhoSkipped s))"
        by (simp add: others_skipped_def list_all_iff)
      with act nl p have "idx \<in> set (playersWhoSkipped ?t)" by (simp add: skt)
      moreover have "findIndex (\<lambda>pl. pid pl = pid p) (players ?t) = Some idx"
        using findIndex_pid [OF d idx] by (simp add: pt p)
      ultimately show "case x of (idx, p) \<Rightarrow>
             case findIndex (\<lambda>pl. pid pl = pid p) (players ?t) of
               Some k \<Rightarrow> k \<in> set (playersWhoSkipped ?t) | None \<Rightarrow> False"
        by (simp add: xp)
    qed
    with c lt False show ?thesis by (simp add: skipTurn_def Let_def)
  qed
  with closed show ?thesis by simp
qed

text \<open>
  Claim C2. In a reachable state with a round leader, if after the skip of the current
  seat every seat other than the round leader that has no finish position is in
  \<open>playersWhoSkipped\<close>, then the skip is carried out and leaves the round leader as the
  current seat, an empty table and an empty \<open>playersWhoSkipped\<close>.
\<close>

theorem round_closure:
  assumes "reachable s" and "roundLeader s = Some l"
    and "others_skipped l (players s) (set_add (currentPlayerIndex s) (playersWhoSkipped s))"
  shows "\<exists>s'. guardedSkipTurn (currentPlayerIndex s) s = Some (True, s') \<and>
           currentPlayerIndex s' = l \<and> currentHighestCards s' = [] \<and>
           playersWhoSkipped s' = []"
proof -
  from assms(1) have "wf s" by (rule reachable_wf)
  from skipTurn_closes [OF this assms(2,3)] show ?thesis
    by (auto simp: guardedSkipTurn_def)
qed

lemma before_last_skip_ok: "run before_last_skip game0 \<noteq> None"
  by code_simp

lemma before_last_skip_state:
  "roundLeader (after before_last_skip) = Some 0"
  "currentPlayerIndex (after before_last_skip) = 3"
  "playersWhoSkipped (after before_last_skip) = [1, 2]"
  "currentHighestCards (after before_last_skip) = four 3"
  "others_skipped 0 (players (after before_last_skip))
     (set_add (currentPlayerIndex (after before_last_skip))
        (playersWhoSkipped (after before_last_skip)))"
  by code_simp+

lemma last_skip_state:
  "guardedSkipTurn 3 (after before_last_skip) = Some (True, after (before_last_skip @ [SkipTurn 3]))"
  by code_simp

theorem round_closure_witness:
  "reachable (after before_last_skip) \<and>
   roundLeader (after before_last_skip) = Some 0 \<and>
   others_skipped 0 (players (after before_last_skip))
     (set_add (currentPlayerIndex (after before_last_skip))
        (playersWhoSkipped (after before_last_skip))) \<and>
   currentHighestCards (after before_last_skip) = four 3 \<and>
   guardedSkipTurn 3 (after before_last_skip)
     = Some (True, after (before_last_skip @ [SkipTurn 3])) \<and>
   currentPlayerIndex (after (before_last_skip @ [SkipTurn 3])) = 0 \<and>
   currentHighestCards (after (before_last_skip @ [SkipTurn 3])) = [] \<and>
   playersWhoSkipped (after (before_last_skip @ [SkipTurn 3])) = []"
proof -
  let ?s = "after before_last_skip"
  have r: "reachable ?s" using before_last_skip_ok by (rule reachable_after)
  from round_closure [OF r before_last_skip_state(1,5)]
  have "currentPlayerIndex (after (before_last_skip @ [SkipTurn 3])) = 0 \<and>
        currentHighestCards (after (before_last_skip @ [SkipTurn 3])) = [] \<and>
        playersWhoSkipped (after (before_last_skip @ [SkipTurn 3])) = []"
    by (auto simp: before_last_skip_state(2) last_skip_state)
  with r before_last_skip_state last_skip_state show ?thesis by simp
qed

subsection \<open>The shuffle reaches every order in exactly one way\<close>

lemma swap_nth_other: "k \<noteq> i \<Longrightarrow> k \<noteq> j \<Longrightarrow> swap i j xs ! k = xs ! k"
  by (simp add: swap_def)

lemma swap_nth_upper: "i < length xs \<Longrightarrow> swap i j xs ! i = xs ! j"
  by (cases "i = j") (simp_all add: swap_def)

lemma distinct_swap:
  "distinct xs \<Longrightarrow> i < length xs \<Longrightarrow> j < length xs \<Longrightarrow> distinct (swap i j xs)"
  using mset_swap_deck [of i xs j] by (metis mset_eq_imp_distinct_iff)

lemma shuffle_loop_cong:
  "(\<And>k. 0 < k \<Longrightarrow> k \<le> i \<Longrightarrow> r1 k = r2 k) \<Longrightarrow> shuffle_loop r1 i xs = shuffle_loop r2 i xs"
  by (induction i arbitrary: xs) simp_all

lemma shuffle_loop_above:
  "draws_ok rnd \<Longrightarrow> i < k \<Longrightarrow> shuffle_loop rnd i xs ! k = xs ! k"
proof (induction i arbitrary: xs)
  case 0
  then show ?case by simp
next
  case (Suc i)
  from Suc.prems have "rnd (Suc i) \<le> Suc i" by (simp add: draws_ok_def)
  with Suc.prems have "swap (Suc i) (rnd (Suc i)) xs ! k = xs ! k"
    by (intro swap_nth_other) simp_all
  with Suc show ?case by simp
qed

lemma shuffle_loop_top:
  assumes "draws_ok rnd" and "Suc i < length xs"
  shows "shuffle_loop rnd (Suc i) xs ! Suc i = xs ! rnd (Suc i)"
proof -
  have "shuffle_loop rnd (Suc i) xs ! Suc i = swap (Suc i) (rnd (Suc i)) xs ! Suc i"
    using assms(1) by (simp add: shuffle_loop_above)
  with assms(2) show ?thesis by (simp add: swap_nth_upper)
qed

lemma agree_above_0:
  assumes "mset p = mset d" and "\<And>k. 0 < k \<Longrightarrow> k < length d \<Longrightarrow> p ! k = d ! k"
  shows "p = d"
proof (cases d)
  case Nil
  with assms(1) show ?thesis by simp
next
  case (Cons x xs)
  from assms(1) have len: "length p = length d" by (rule mset_eq_length)
  with Cons obtain y ys where p: "p = y # ys" by (cases p) auto
  have "ys = xs"
  proof (rule nth_equalityI)
    show "length ys = length xs" using len p Cons by simp
  next
    fix k assume "k < length ys"
    with assms(2) [of "Suc k"] len p Cons show "ys ! k = xs ! k" by simp
  qed
  with assms(1) p Cons show ?thesis by simp
qed

lemma shuffle_loop_reaches:
  assumes "distinct d" and "mset p = mset d" and "i < length d"
    and "\<And>k. i < k \<Longrightarrow> k < length d \<Longrightarrow> p ! k = d ! k"
  shows "\<exists>rnd. draws_ok rnd \<and> shuffle_loop rnd i d = p"
  using assms
proof (induction i arbitrary: d)
  case 0
  then have "p = d" by (intro agree_above_0) simp_all
  then have "draws_ok (\<lambda>k. 0) \<and> shuffle_loop (\<lambda>k. 0) 0 d = p"
    by (simp add: draws_ok_def)
  then show ?case by blast
next
  case (Suc i)
  have len: "length p = length d" using Suc.prems(2) by (rule mset_eq_length)
  have dp: "distinct p" using Suc.prems(1,2) by (metis mset_eq_imp_distinct_iff)
  from Suc.prems(3) len have "p ! Suc i \<in> set p" by simp
  with Suc.prems(2) have "p ! Suc i \<in> set d" by (metis mset_eq_setD)
  then obtain j where j: "j < length d" and dj: "d ! j = p ! Suc i"
    by (auto simp: in_set_conv_nth)
  have jle: "j \<le> Suc i"
  proof (rule ccontr)
    assume "\<not> j \<le> Suc i"
    then have "Suc i < j" by simp
    with Suc.prems(4) j have "p ! j = d ! j" by simp
    with dj have "p ! j = p ! Suc i" by simp
    with dp j len Suc.prems(3) have "j = Suc i" by (simp add: nth_eq_iff_index_eq)
    with \<open>Suc i < j\<close> show False by simp
  qed
  let ?d = "swap (Suc i) j d"
  have "distinct ?d" using Suc.prems(1,3) j by (rule distinct_swap)
  moreover have "mset p = mset ?d"
    using Suc.prems(2,3) j by (simp add: mset_swap_deck)
  moreover have "i < length ?d" using Suc.prems(3) by simp
  moreover have "p ! k = ?d ! k" if "i < k" "k < length ?d" for k
  proof (cases "k = Suc i")
    case True
    with Suc.prems(3) dj show ?thesis by (simp add: swap_nth_upper)
  next
    case False
    with that jle have "k \<noteq> j" and "Suc i < k" by simp_all
    with False that Suc.prems(4) [of k] show ?thesis by (simp add: swap_nth_other)
  qed
  ultimately obtain r where r: "draws_ok r" and sr: "shuffle_loop r i ?d = p"
    using Suc.IH [of ?d] by blast
  let ?r = "r(Suc i := j)"
  have "draws_ok ?r" using r jle by (simp add: draws_ok_def)
  moreover have "shuffle_loop ?r i ?d = shuffle_loop r i ?d"
    by (rule shuffle_loop_cong) simp
  then have "shuffle_loop ?r (Suc i) d = p" using sr by simp
  ultimately show ?case by blast
qed

lemma shuffle_loop_draws_unique:
  assumes "distinct d" and "i < length d" and "draws_ok r1" and "draws_ok r2"
    and "shuffle_loop r1 i d = shuffle_loop r2 i d"
  shows "0 < k \<Longrightarrow> k \<le> i \<Longrightarrow> r1 k = r2 k"
  using assms
proof (induction i arbitrary: d)
  case 0
  then show ?case by simp
next
  case (Suc i)
  from Suc.prems(5,6) have b: "r1 (Suc i) < length d" "r2 (Suc i) < length d"
    using Suc.prems(4) by (auto simp: draws_ok_def intro: le_less_trans)
  have "d ! r1 (Suc i) = shuffle_loop r1 (Suc i) d ! Suc i"
    using Suc.prems(4,5) by (simp only: shuffle_loop_top)
  also have "\<dots> = shuffle_loop r2 (Suc i) d ! Suc i"
    by (simp only: Suc.prems(7))
  also have "\<dots> = d ! r2 (Suc i)"
    using Suc.prems(4,6) by (simp only: shuffle_loop_top)
  finally have top: "r1 (Suc i) = r2 (Suc i)"
    using Suc.prems(3) b by (simp add: nth_eq_iff_index_eq)
  show ?case
  proof (cases "k = Suc i")
    case True
    with top show ?thesis by simp
  next
    case False
    with Suc.prems(2) have "k \<le> i" by simp
    moreover have "distinct (swap (Suc i) (r1 (Suc i)) d)"
      using Suc.prems(3,4) b by (intro distinct_swap)
    moreover have "shuffle_loop r1 i (swap (Suc i) (r1 (Suc i)) d)
        = shuffle_loop r2 i (swap (Suc i) (r1 (Suc i)) d)"
      using Suc.prems(7) top by simp
    ultimately show ?thesis
      using Suc.IH [of "swap (Suc i) (r1 (Suc i)) d"] Suc.prems(1,4,5,6) by simp
  qed
qed

text \<open>
  The loop of \<open>shuffle\<close> on any deck of distinct cards: iteration \<open>i\<close> draws one of the
  \<open>i + 1\<close> positions \<open>0..i\<close>; every order \<open>p\<close> of the deck is the result of some run of
  draws, and two runs that give the same order have made the same draw in every iteration.
\<close>

lemma shuffle_one_to_one:
  assumes "distinct d" and "mset p = mset d"
  shows "(\<exists>rnd. draws_ok rnd \<and> shuffle rnd d = p) \<and>
         (\<forall>r1 r2. draws_ok r1 \<and> draws_ok r2 \<and> shuffle r1 d = p \<and> shuffle r2 d = p \<longrightarrow>
            (\<forall>i. 0 < i \<and> i < length d \<longrightarrow> r1 i = r2 i))"
proof (cases "d = []")
  case True
  with assms(2) have "draws_ok (\<lambda>k. 0) \<and> shuffle (\<lambda>k. 0) d = p"
    by (simp add: draws_ok_def shuffle_def)
  then have "\<exists>rnd. draws_ok rnd \<and> shuffle rnd d = p" by blast
  with True show ?thesis by simp
next
  case False
  then have n: "length d - 1 < length d" by simp
  have "\<exists>rnd. draws_ok rnd \<and> shuffle_loop rnd (length d - 1) d = p"
    using assms n by (rule shuffle_loop_reaches) simp
  then have ex: "\<exists>rnd. draws_ok rnd \<and> shuffle rnd d = p" by (simp add: shuffle_def)
  have "r1 i = r2 i"
    if "draws_ok r1" "draws_ok r2" "shuffle r1 d = p" "shuffle r2 d = p" "0 < i" "i < length d"
    for r1 r2 i
  proof -
    from that(3,4) have "shuffle_loop r1 (length d - 1) d = shuffle_loop r2 (length d - 1) d"
      by (simp add: shuffle_def)
    moreover from that(6) have "i \<le> length d - 1" by simp
    ultimately show ?thesis
      using shuffle_loop_draws_unique [OF assms(1) n that(1,2)] that(5) by blast
  qed
  with ex show ?thesis by blast
qed

text \<open>
  The constructor deals the deck of \<open>createDeck\<close> as it comes: the hands of the four seats,
  one after the other, are the shuffled deck.
\<close>

lemma dealt_hands:
  assumes "length ps = 4"
  shows "concat (map hand (players (new_GameState ps rnd start))) = createDeck rnd"
proof -
  obtain qs e where loop: "dealCards_loop (initial_players ps) (createDeck rnd) = (qs, e)"
    by (cases "dealCards_loop (initial_players ps) (createDeck rnd)")
  have n: "length (initial_players ps) = 4"
    using assms by (simp add: initial_players_def)
  have l: "length (createDeck rnd) = 52"
    by (simp add: createDeck_def length_unshuffled_deck)
  from dealCards_loop_props [OF loop] n l new_GameState_players [OF loop, of start]
  show ?thesis by simp
qed

lemma demo_deck: "createDeck demo_rnd = concat (map four card_values)"
  by code_simp

text \<open>
  Claim C10. The shuffle used when a match is created is the Fisher-Yates loop: \<open>createDeck\<close>
  shuffles the 52 cards with one draw among the positions \<open>0..i\<close> for each \<open>i\<close> from 51 down
  to 1, and the constructor deals the result as it comes. Every order \<open>p\<close> of the 52 cards is
  the deck of \<open>createDeck\<close>, and so the deal of the match, for some run of draws, and two runs
  that give the same order have made the same draw in each of the 51 iterations. So the
  \<open>52 * 51 * ... * 2\<close> runs of draws and the orders of the deck correspond one to one, and
  draws that are uniform and independent make every order of the deal equally likely.
\<close>

theorem shuffle_uniform:
  assumes "mset p = mset unshuffled_deck" and "length ps = 4"
  shows "(\<exists>rnd. draws_ok rnd \<and> createDeck rnd = p \<and>
            concat (map hand (players (new_GameState ps rnd start))) = p) \<and>
         (\<forall>r1 r2. draws_ok r1 \<and> draws_ok r2 \<and>
            concat (map hand (players (new_GameState ps r1 start))) = p \<and>
            concat (map hand (players (new_GameState ps r2 start))) = p \<longrightarrow>
            createDeck r1 = p \<and> createDeck r2 = p \<and> (\<forall>i. 0 < i \<and> i < 52 \<longrightarrow> r1 i = r2 i))"
proof -
  note one = shuffle_one_to_one [OF distinct_unshuffled_deck assms(1)]
  from one obtain rnd where "draws_ok rnd" and "createDeck rnd = p"
    by (auto simp: createDeck_def)
  then have ex: "\<exists>rnd. draws_ok rnd \<and> createDeck rnd = p \<and>
      concat (map hand (players (new_GameState ps rnd start))) = p"
    using dealt_hands [OF assms(2), of rnd start] by auto
  have "createDeck r1 = p \<and> createDeck r2 = p \<and> (\<forall>i. 0 < i \<and> i < 52 \<longrightarrow> r1 i = r2 i)"
    if "draws_ok r1" "draws_ok r2"
      "concat (map hand (players (new_GameState ps r1 start))) = p"
      "concat (map hand (players (new_GameState ps r2 start))) = p"
    for r1 r2
  proof -
    from that(3,4) have c: "createDeck r1 = p" "createDeck r2 = p"
      by (simp_all add: dealt_hands [OF assms(2)])
    then have "shuffle r1 unshuffled_deck = p" "shuffle r2 unshuffled_deck = p"
      by (simp_all add: createDeck_def)
    with one that(1,2) have "\<forall>i. 0 < i \<and> i < length unshuffled_deck \<longrightarrow> r1 i = r2 i"
      by blast
    with c show ?thesis by (simp add: length_unshuffled_deck)
  qed
  with ex show ?thesis by blast
qed

text \<open>
  The deal that reverses the new deck is reached, and the draws of the concrete match turn
  the deck, built suit by suit, into the deck sorted by rank.
\<close>

theorem shuffle_uniform_witness:
  "mset (rev unshuffled_deck) = mset unshuffled_deck \<and> length demo_players = 4 \<and>
   (\<exists>rnd. draws_ok rnd \<and> createDeck rnd = rev unshuffled_deck \<and>
      concat (map hand (players (new_GameState demo_players rnd 0))) = rev unshuffled_deck) \<and>
   draws_ok demo_rnd \<and>
   concat (map hand (players (new_GameState demo_players demo_rnd 0)))
     = concat (map four card_values) \<and>
   createDeck demo_rnd = concat (map four card_values) \<and>
   createDeck demo_rnd \<noteq> unshuffled_deck"
proof -
  have r: "mset (rev unshuffled_deck) = mset unshuffled_deck" by simp
  have n: "length demo_players = 4" by (simp add: demo_players_def)
  have d: "concat (map hand (players (new_GameState demo_players demo_rnd 0)))
      = concat (map four card_values)"
    by (simp only: dealt_hands [OF n] demo_deck)
  have ne: "createDeck demo_rnd \<noteq> unshuffled_deck"
    unfolding demo_deck
    by (simp add: unshuffled_deck_def suits_def card_values_def four_def C_def)
  from shuffle_uniform [OF r n, of 0] r n d ne draws_ok_demo_rnd demo_deck
  show ?thesis by blast
qed

subsection \<open>Finish positions\<close>
















lemma placeCards_frame [simp]:
  "length (players (placeCards i h cs s)) = length (players s)"
  "map finishPosition (players (placeCards i h cs s)) = map finishPosition (players s)"
  "finishedPlayers (placeCards i h cs s) = finishedPlayers s"
  "gamePhase (placeCards i h cs s) = gamePhase s"
  "roundLeader (placeCards i h cs s) = Some i"
  by (simp_all add: placeCards_def)

lemma placeCards_hands [simp]:
  "map hand (players (placeCards i h cs s)) = (map hand (players s))[i := h]"
  by (simp add: placeCards_def map_update)


lemma nextTurn_seats [simp]:
  "activeSeats (nextTurn s) = activeSeats s" "emptySeats (nextTurn s) = emptySeats s"
  by (simp_all add: activeSeats_def emptySeats_def)





















end
